theory Spec2Isabelle
  imports Main "HOL-Library.Word"
begin

section \<open>Strings and page data\<close>

text \<open>
  A JavaScript string is a sequence of UTF-16 code units: \<open>s.length\<close> counts code units and
  \<open>s.slice(0, n)\<close> keeps the first \<open>n\<close> of them. The empty string is the only falsy string.
\<close>

type_synonym jsstring = "16 word list"

definition lit :: "string \<Rightarrow> jsstring" where
  "lit s = map of_char s"

text \<open>\<open>xs[0]\<close> of a JavaScript array: \<open>undefined\<close> (here \<open>None\<close>) when the array is empty.\<close>

fun first :: "'a list \<Rightarrow> 'a option" where
  "first [] = None"
| "first (x # xs) = Some x"

record image =
  src :: jsstring
  currentAlt :: jsstring

record headings =
  h1 :: "jsstring list"
  h2 :: "jsstring list"
  h3 :: "jsstring list"

text \<open>The object returned by \<open>page.evaluate\<close> in \<open>scanPage\<close>.\<close>

record pageData =
  title :: jsstring
  metaDescription :: jsstring
  headings :: headings
  images :: "image list"
  wordCount :: nat
  hasContent :: bool
  internalLinks :: "jsstring list"

datatype priority = high | medium | low

record recommendations =
  recTitle :: jsstring
  recMetaDescription :: jsstring
  recPriority :: priority

section \<open>Recommendation engine (LightweightScraper)\<close>

definition optimizeTitle :: "jsstring \<Rightarrow> jsstring option \<Rightarrow> jsstring" where
  "optimizeTitle current h =
     (if current = [] \<or> length current < 30 then
        (case h of
           Some t \<Rightarrow>
             (if t \<noteq> [] \<and> length t > 0 then
                (if length t > 50 then take 50 t @ lit ''...'' else t @ lit '' | Your Brand'')
              else lit ''Untitled Page | Your Brand'')
         | None \<Rightarrow> lit ''Untitled Page | Your Brand'')
      else if length current > 60 then take 57 current @ lit ''...''
      else current)"

definition optimizeDescription :: "jsstring \<Rightarrow> jsstring \<Rightarrow> jsstring option \<Rightarrow> jsstring" where
  "optimizeDescription current ttl h =
     (if current = [] \<or> length current < 120 then
        (let baseText =
               (case h of
                  Some t \<Rightarrow> if t \<noteq> [] then t
                            else if ttl \<noteq> [] then ttl else lit ''Learn more about this page''
                | None \<Rightarrow> if ttl \<noteq> [] then ttl else lit ''Learn more about this page'');
             description = baseText @ lit ''. Discover comprehensive information and insights.''
         in if length description > 160 then take 157 description @ lit ''...'' else description)
      else if length current > 160 then take 157 current @ lit ''...''
      else current)"

text \<open>
  \<open>calculatePriority\<close>: the score is a local variable that the five tests add to in turn;
  each \<open>let\<close> below is one of the source's \<open>if (...) score += ...\<close> statements.
\<close>

definition calculatePriority :: "pageData \<Rightarrow> priority" where
  "calculatePriority pd =
     (let score0 = (0::nat);
          score1 = (if title pd = [] \<or> length (title pd) < 30 \<or> length (title pd) > 60
                    then score0 + 2 else score0);
          score2 = (if metaDescription pd = [] \<or> length (metaDescription pd) < 120
                       \<or> length (metaDescription pd) > 160
                    then score1 + 2 else score1);
          score3 = (if \<not> hasContent pd then score2 + 3 else score2);
          score4 = (if length (h1 (headings pd)) = 0 then score3 + 1 else score3);
          imagesWithoutAlt = length (filter (\<lambda>img. currentAlt img = []) (images pd));
          score5 = (if imagesWithoutAlt > 0 then score4 + min imagesWithoutAlt 2 else score4)
      in if score5 \<ge> 5 then high else if score5 \<ge> 2 then medium else low)"

definition generateRecommendations :: "pageData \<Rightarrow> recommendations" where
  "generateRecommendations pd =
     (let titleLength = length (title pd);
          descLength = length (metaDescription pd);
          optimizedTitle =
            (if titleLength < 30 \<or> titleLength > 60
             then optimizeTitle (title pd) (first (h1 (headings pd)))
             else title pd);
          optimizedDescription =
            (if descLength < 120 \<or> descLength > 160
             then optimizeDescription (metaDescription pd) (title pd) (first (h1 (headings pd)))
             else metaDescription pd)
      in \<lparr>recTitle = optimizedTitle,
          recMetaDescription = optimizedDescription,
          recPriority = calculatePriority pd\<rparr>)"

subsection \<open>The scoring rule in the specification's words\<close>

text \<open>
  The weighted defects of the specification, each as a number of points, and the thresholds
  on their sum. A length window \<open>[lo, hi]\<close> is inclusive at both ends.
\<close>

definition outside_window :: "nat \<Rightarrow> nat \<Rightarrow> jsstring \<Rightarrow> bool" where
  "outside_window lo hi s = (\<not> (lo \<le> length s \<and> length s \<le> hi))"

definition missing_alt_count :: "pageData \<Rightarrow> nat" where
  "missing_alt_count pd = length (filter (\<lambda>img. currentAlt img = []) (images pd))"

definition spec_score :: "pageData \<Rightarrow> nat" where
  "spec_score pd =
     (if outside_window 30 60 (title pd) then 2 else 0)
   + (if outside_window 120 160 (metaDescription pd) then 2 else 0)
   + (if hasContent pd then 0 else 3)
   + (if h1 (headings pd) = [] then 1 else 0)
   + min (missing_alt_count pd) 2"

definition spec_priority :: "pageData \<Rightarrow> priority" where
  "spec_priority pd =
     (if 5 \<le> spec_score pd then high else if 2 \<le> spec_score pd then medium else low)"

subsection \<open>A page for the title rule\<close>

text \<open>A page with no title and one H1 of 51 code units (51 times the letter a).\<close>

definition long_h1_page :: pageData where
  "long_h1_page =
     \<lparr>title = [], metaDescription = [],
      headings = \<lparr>h1 = [replicate 51 97], h2 = [], h3 = []\<rparr>,
      images = [], wordCount = 0, hasContent = False, internalLinks = []\<rparr>"

section \<open>Job queue (InMemoryQueue)\<close>

datatype status = Pending | Processing | Completed | Failed

record ScanJob =
  sessionId :: jsstring
  url :: jsstring

text \<open>\<open>createdAt\<close> is the value of \<open>getTime()\<close>: milliseconds since the epoch.\<close>

record QueueJob =
  jobId :: jsstring
  data :: ScanJob
  status :: status
  createdAt :: int
  attempts :: nat

text \<open>
  A job is a JavaScript object: the map \<open>queue\<close> holds a reference to it, and so does the
  local variable \<open>job\<close> of \<open>processQueue\<close>, which assigns to its fields. The objects live in
  \<open>heap\<close>, a reference is an index into it, and an object is never freed (a job deleted from
  the map stays reachable from \<open>job\<close> and from the timers' closures).

  \<open>queue\<close> is the \<open>Map<string, QueueJob>\<close> in its iteration order, which is the order of
  first insertion of the keys.

  \<open>processQueue\<close> is an asynchronous function: it runs until an \<open>await\<close>, and goes on when
  the awaited promise settles. \<open>suspended\<close> says where it waits: nowhere (it is not running),
  at \<open>await this.executeJob(job)\<close>, or at \<open>await this.delay(5000)\<close>. \<open>timers\<close> holds the job
  ids of the pending \<open>setTimeout\<close> callbacks, each of which deletes its id from the map.
\<close>

datatype continuation = Idle | AwaitExecuteJob nat | AwaitDelay

record InMemoryQueue =
  heap :: "QueueJob list"
  queue :: "(jsstring \<times> nat) list"
  processing :: bool
  suspended :: continuation
  timers :: "jsstring list"

definition initial :: InMemoryQueue where
  "initial = \<lparr>heap = [], queue = [], processing = False, suspended = Idle, timers = []\<rparr>"

text \<open>\<open>Map.prototype.set\<close>: an existing key keeps its place, a new key goes last.\<close>

fun map_set :: "('k \<times> 'v) list \<Rightarrow> 'k \<Rightarrow> 'v \<Rightarrow> ('k \<times> 'v) list" where
  "map_set [] k v = [(k, v)]"
| "map_set (e # m) k v = (if fst e = k then (k, v) # m else e # map_set m k v)"

definition map_delete :: "('k \<times> 'v) list \<Rightarrow> 'k \<Rightarrow> ('k \<times> 'v) list" where
  "map_delete m k = filter (\<lambda>e. fst e \<noteq> k) m"

definition map_get :: "('k \<times> 'v) list \<Rightarrow> 'k \<Rightarrow> 'v option" where
  "map_get m k = map_option snd (find (\<lambda>e. fst e = k) m)"

definition getJobStatus :: "InMemoryQueue \<Rightarrow> jsstring \<Rightarrow> QueueJob option" where
  "getJobStatus s jid = map_option (\<lambda>r. heap s ! r) (map_get (queue s) jid)"

record stats =
  st_total :: nat
  st_pending :: nat
  st_processing :: nat
  st_completed :: nat
  st_failed :: nat

definition getQueueStats :: "InMemoryQueue \<Rightarrow> stats" where
  "getQueueStats s =
     (let jobs = map (\<lambda>e. heap s ! snd e) (queue s)
      in \<lparr>st_total = length jobs,
          st_pending = length (filter (\<lambda>job. status job = Pending) jobs),
          st_processing = length (filter (\<lambda>job. status job = Processing) jobs),
          st_completed = length (filter (\<lambda>job. status job = Completed) jobs),
          st_failed = length (filter (\<lambda>job. status job = Failed) jobs)\<rparr>)"

text \<open>
  The pending jobs of the map, sorted by \<open>createdAt\<close>. \<open>Array.prototype.sort\<close> is stable
  (ECMAScript 2019; the project requires Node.js 16 or later), and so is \<open>sort_key\<close>.
\<close>

definition pendingJobs :: "InMemoryQueue \<Rightarrow> nat list" where
  "pendingJobs s =
     sort_key (\<lambda>r. createdAt (heap s ! r))
       (filter (\<lambda>r. status (heap s ! r) = Pending) (map snd (queue s)))"

definition setStatus :: "nat \<Rightarrow> status \<Rightarrow> InMemoryQueue \<Rightarrow> InMemoryQueue" where
  "setStatus job st s = s\<lparr>heap := (heap s)[job := (heap s ! job)\<lparr>status := st\<rparr>]\<rparr>"

definition incAttempts :: "nat \<Rightarrow> InMemoryQueue \<Rightarrow> InMemoryQueue" where
  "incAttempts job s =
     s\<lparr>heap := (heap s)[job := (heap s ! job)\<lparr>attempts := attempts (heap s ! job) + 1\<rparr>]\<rparr>"

definition setTimeout_delete :: "nat \<Rightarrow> InMemoryQueue \<Rightarrow> InMemoryQueue" where
  "setTimeout_delete job s = s\<lparr>timers := timers s @ [jobId (heap s ! job)]\<rparr>"

text \<open>
  The \<open>while\<close> loop of \<open>processQueue\<close>, from the test of its condition to the next \<open>await\<close>
  (the job picked is marked and its execution awaited) or to the end of the function (the
  flag is released).
\<close>

definition loop :: "InMemoryQueue \<Rightarrow> InMemoryQueue" where
  "loop s =
     (if length (queue s) > 0 then
        (case pendingJobs s of
           [] \<Rightarrow> s\<lparr>processing := False, suspended := Idle\<rparr>
         | job # _ \<Rightarrow> (setStatus job Processing s)\<lparr>suspended := AwaitExecuteJob job\<rparr>)
      else s\<lparr>processing := False, suspended := Idle\<rparr>)"

definition processQueue :: "InMemoryQueue \<Rightarrow> InMemoryQueue" where
  "processQueue s = loop (s\<lparr>processing := True\<rparr>)"

text \<open>\<open>add\<close>: the id is the result of \<open>crypto.randomUUID()\<close>, the time that of \<open>new Date()\<close>.\<close>

definition add :: "ScanJob \<Rightarrow> jsstring \<Rightarrow> int \<Rightarrow> InMemoryQueue \<Rightarrow> InMemoryQueue" where
  "add jobData jid now s =
     (let job = length (heap s);
          s1 = s\<lparr>heap := heap s @ [\<lparr>jobId = jid, data = jobData, status = Pending,
                                     createdAt = now, attempts = 0\<rparr>],
                 queue := map_set (queue s) jid job\<rparr>
      in if \<not> processing s1 then processQueue s1 else s1)"

text \<open>The two ways \<open>await this.executeJob(job)\<close> ends, and the end of the delay.\<close>

definition executeJob_resolved :: "InMemoryQueue \<Rightarrow> InMemoryQueue" where
  "executeJob_resolved s =
     (case suspended s of
        AwaitExecuteJob job \<Rightarrow> loop (setTimeout_delete job (setStatus job Completed s))
      | _ \<Rightarrow> s)"

definition executeJob_rejected :: "InMemoryQueue \<Rightarrow> InMemoryQueue" where
  "executeJob_rejected s =
     (case suspended s of
        AwaitExecuteJob job \<Rightarrow>
          (let s1 = incAttempts job s
           in if attempts (heap s1 ! job) < 3
              then (setStatus job Pending s1)\<lparr>suspended := AwaitDelay\<rparr>
              else loop (setTimeout_delete job (setStatus job Failed s1)))
      | _ \<Rightarrow> s)"

definition delay_elapsed :: "InMemoryQueue \<Rightarrow> InMemoryQueue" where
  "delay_elapsed s = (case suspended s of AwaitDelay \<Rightarrow> loop s | _ \<Rightarrow> s)"

definition timer_fired :: "nat \<Rightarrow> InMemoryQueue \<Rightarrow> InMemoryQueue" where
  "timer_fired i s =
     (if i < length (timers s)
      then s\<lparr>queue := map_delete (queue s) (timers s ! i),
             timers := take i (timers s) @ drop (Suc i) (timers s)\<rparr>
      else s)"

definition cleanup :: "int \<Rightarrow> InMemoryQueue \<Rightarrow> InMemoryQueue" where
  "cleanup now s =
     (let oneHourAgo = now - 60 * 60 * 1000
      in s\<lparr>queue :=
             filter (\<lambda>e. \<not> ((status (heap s ! snd e) = Completed \<or> status (heap s ! snd e) = Failed)
                            \<and> createdAt (heap s ! snd e) < oneHourAgo))
               (queue s)\<rparr>)"

text \<open>
  What can happen to the scheduler, one event at a time (JavaScript runs each to completion):
  a call of \<open>add\<close>, the settling of the promise \<open>processQueue\<close> waits for, a timer, a call
  of \<open>cleanup\<close>. An event that cannot happen in a state (no such promise, no such timer)
  leaves it as it is.
\<close>

datatype event =
    Add ScanJob jsstring int
  | ExecuteJobResolved
  | ExecuteJobRejected
  | DelayElapsed
  | TimerFired nat
  | Cleanup int

fun step :: "event \<Rightarrow> InMemoryQueue \<Rightarrow> InMemoryQueue" where
  "step (Add jobData jid now) s = add jobData jid now s"
| "step ExecuteJobResolved s = executeJob_resolved s"
| "step ExecuteJobRejected s = executeJob_rejected s"
| "step DelayElapsed s = delay_elapsed s"
| "step (TimerFired i) s = timer_fired i s"
| "step (Cleanup now) s = cleanup now s"

definition run :: "event list \<Rightarrow> InMemoryQueue" where
  "run evs = foldl (\<lambda>s e. step e s) initial evs"

subsection \<open>Invariants of the scheduler\<close>

text \<open>
  Every reference of the map is an allocated object and no two keys hold the same object; the
  object marked \<open>Processing\<close> is the one \<open>processQueue\<close> awaits the execution of, and the flag
  is set exactly while \<open>processQueue\<close> is suspended; the attempts of every object are at most
  3, and 3 exactly for the failed ones.
\<close>

definition refs_ok :: "InMemoryQueue \<Rightarrow> bool" where
  "refs_ok s = ((\<forall>r \<in> set (map snd (queue s)). r < length (heap s)) \<and> distinct (map snd (queue s)))"

definition quiet :: "InMemoryQueue \<Rightarrow> bool" where
  "quiet s = (\<forall>r < length (heap s). status (heap s ! r) \<noteq> Processing)"

definition single_flight :: "InMemoryQueue \<Rightarrow> bool" where
  "single_flight s =
     ((\<forall>r < length (heap s). (status (heap s ! r) = Processing) = (suspended s = AwaitExecuteJob r))
      \<and> (\<forall>j. suspended s = AwaitExecuteJob j \<longrightarrow> j < length (heap s))
      \<and> (processing s = (suspended s \<noteq> Idle)))"

definition attempts_ok :: "InMemoryQueue \<Rightarrow> bool" where
  "attempts_ok s =
     (\<forall>r < length (heap s). attempts (heap s ! r) \<le> 3
        \<and> ((status (heap s ! r) = Failed) = (attempts (heap s ! r) = 3)))"

definition queue_inv :: "InMemoryQueue \<Rightarrow> bool" where
  "queue_inv s = (refs_ok s \<and> single_flight s \<and> attempts_ok s)"

subsection \<open>Concrete scheduler states and runs\<close>

definition a_job :: ScanJob where
  "a_job = \<lparr>sessionId = lit ''s1'', url = lit ''http://a''\<rparr>"

text \<open>
  A map of four jobs while \<open>processQueue\<close> waits for a retry delay: the first is completed, the
  other three are pending; the third and the fourth were created at the same millisecond,
  before the second.
\<close>

definition tie_state :: InMemoryQueue where
  "tie_state =
     \<lparr>heap = [\<lparr>jobId = lit ''a'', data = a_job, status = Completed, createdAt = 5, attempts = 0\<rparr>,
              \<lparr>jobId = lit ''b'', data = a_job, status = Pending, createdAt = 9, attempts = 0\<rparr>,
              \<lparr>jobId = lit ''c'', data = a_job, status = Pending, createdAt = 7, attempts = 1\<rparr>,
              \<lparr>jobId = lit ''d'', data = a_job, status = Pending, createdAt = 7, attempts = 0\<rparr>],
      queue = [(lit ''a'', 0), (lit ''b'', 1), (lit ''c'', 2), (lit ''d'', 3)],
      processing = True, suspended = AwaitDelay, timers = [lit ''a'']\<rparr>"

text \<open>One job whose execution fails three times, and what may follow.\<close>

definition three_failures :: "event list" where
  "three_failures =
     [Add a_job (lit ''j1'') 0, ExecuteJobRejected, DelayElapsed,
      ExecuteJobRejected, DelayElapsed, ExecuteJobRejected]"

definition afterwards :: "event list" where
  "afterwards = [Add a_job (lit ''j2'') 1, ExecuteJobResolved, TimerFired 0, Cleanup 4000000]"

section \<open>Crawler (LightweightScraper)\<close>

text \<open>
  An entry of \<open>scanData.pages\<close>: the URL, the extracted page data and the recommendations.
  (The entry's images carry a recommended alt text as well; no property below reads it, and
  \<open>generateAltText\<close> catches its own exceptions, so it is left out.)
\<close>

record page =
  pageUrl :: jsstring
  pageData :: pageData
  pageRecommendations :: recommendations

record scanData =
  pages :: "page list"
  totalPages :: nat
  pagesProcessed :: nat
  pagesSkipped :: nat
  errors :: "(jsstring \<times> jsstring) list"
  completedAt :: "int option"

text \<open>
  The writes to the session store, in order: \<open>updateSession\<close> never throws (it catches and
  logs), so all that matters of it is what was written. The first write sets the status
  \<open>scanning\<close>; a progress write carries a copy of the aggregate; the last one carries the
  final aggregate with the status \<open>completed\<close>, or the error message and an empty aggregate
  with the status \<open>failed\<close>.
\<close>

datatype sessionUpdate =
    StatusScanning
  | Progress scanData
  | ScanCompleted scanData
  | ScanFailed jsstring scanData

text \<open>
  The rendering collaborator (the Puppeteer browser), as \<open>scanPage\<close> uses it for one URL:
  \<open>browser.newPage()\<close>, awaited before the \<open>try\<close>; the calls inside the \<open>try\<close> up to
  \<open>page.evaluate\<close> (interception, viewport, \<open>goto\<close> with its 30 s timeout, the wait, the
  extraction), which together yield the page data or throw; and \<open>page.close()\<close> in the
  \<open>finally\<close>. A promise that rejects is \<open>Some reason\<close> (\<open>Inl reason\<close> for the rendering),
  the reason being the message the \<open>catch\<close> would record. A URL gets past the visited-set test
  at most once in a crawl, so a function of the URL describes any behaviour of the browser
  during one crawl.
\<close>

record visit =
  newPage :: "jsstring option"
  render :: "jsstring + pageData"
  closePage :: "jsstring option"

text \<open>
  What a crawl mutates: the aggregate \<open>scanData\<close>, the scraper's own counter
  \<open>this.pagesProcessed\<close>, the set \<open>visitedUrls\<close>, and the session store.
\<close>

record crawl =
  scanData :: scanData
  thisPagesProcessed :: nat
  visitedUrls :: "jsstring set"
  sessionUpdates :: "sessionUpdate list"

definition maxPages :: nat where
  "maxPages = 50"

text \<open>
  The three groups of assignments in \<open>scanPage\<close>: a rendered page is pushed and counted;
  every third processed page the aggregate is written to the session store; the \<open>catch\<close>
  block pushes an error entry for the URL of the current call and counts a skipped page.
\<close>

definition recordPage :: "jsstring \<Rightarrow> pageData \<Rightarrow> crawl \<Rightarrow> crawl" where
  "recordPage u pd s =
     (let recs = generateRecommendations pd;
          sd = scanData s;
          n = thisPagesProcessed s + 1
      in s\<lparr>scanData := sd\<lparr>pages := pages sd @ [\<lparr>pageUrl = u, pageData = pd, pageRecommendations = recs\<rparr>],
                           pagesProcessed := n\<rparr>,
            thisPagesProcessed := n\<rparr>)"

definition updateProgress :: "crawl \<Rightarrow> crawl" where
  "updateProgress s =
     (if thisPagesProcessed s mod 3 = 0
      then s\<lparr>sessionUpdates := sessionUpdates s @ [Progress (scanData s)]\<rparr>
      else s)"

definition catchError :: "jsstring \<Rightarrow> jsstring \<Rightarrow> crawl \<Rightarrow> crawl" where
  "catchError u reason s =
     (let sd = scanData s
      in s\<lparr>scanData := sd\<lparr>errors := errors sd @ [(u, reason)],
                           pagesSkipped := pagesSkipped sd + 1\<rparr>\<rparr>)"

text \<open>
  \<open>scanPage\<close> returns the state and, when it throws, the exception. The exception of
  \<open>newPage\<close> leaves the function at once (it is outside the \<open>try\<close>); everything thrown inside
  the \<open>try\<close>, by the rendering or by a recursive call in the loop over the links, goes to the
  \<open>catch\<close> block; the \<open>finally\<close> block closes the page, and an exception of \<open>page.close()\<close>
  leaves the function. \<open>scanLinks\<close> is the \<open>for\<close> loop over the first five links, called with
  the depth of the children.
\<close>

function scanPage :: "(jsstring \<Rightarrow> visit) \<Rightarrow> jsstring \<Rightarrow> nat \<Rightarrow> crawl \<Rightarrow> crawl \<times> jsstring option"
  and scanLinks :: "(jsstring \<Rightarrow> visit) \<Rightarrow> jsstring list \<Rightarrow> nat \<Rightarrow> crawl \<Rightarrow> crawl \<times> jsstring option"
where
  "scanPage browser u depth s =
     (if u \<in> visitedUrls s \<or> depth > 3 \<or> thisPagesProcessed s \<ge> maxPages then (s, None)
      else
        (let s1 = s\<lparr>visitedUrls := insert u (visitedUrls s)\<rparr>
         in case newPage (browser u) of
              Some e \<Rightarrow> (s1, Some e)
            | None \<Rightarrow>
                (let s4 =
                   (case render (browser u) of
                      Inl e \<Rightarrow> catchError u e s1
                    | Inr pd \<Rightarrow>
                        (let s2 = updateProgress (recordPage u pd s1)
                         in if depth < 2 \<and> length (internalLinks pd) > 0
                            then (case scanLinks browser (take 5 (internalLinks pd)) (depth + 1) s2 of
                                    (s3, None) \<Rightarrow> s3
                                  | (s3, Some e) \<Rightarrow> catchError u e s3)
                            else s2))
                 in (s4, closePage (browser u)))))"
| "scanLinks browser [] depth s = (s, None)"
| "scanLinks browser (link # links) depth s =
     (if thisPagesProcessed s < maxPages
      then (case scanPage browser link depth s of
              (s', None) \<Rightarrow> scanLinks browser links depth s'
            | (s', Some e) \<Rightarrow> (s', Some e))
      else scanLinks browser links depth s)"
  by pat_completeness auto
termination
  apply (relation "inv_image (less_than <*lex*> less_than)
      (\<lambda>x. case x of
         Inl (b, u, d, s) \<Rightarrow> (2 * (4 - d), 0)
       | Inr (b, ls, d, s) \<Rightarrow> (2 * (4 - d) + 1, length ls))")
  apply auto
  done

declare scanPage.simps [simp del]

text \<open>
  \<open>scanWebsite\<close>: \<open>launch\<close> is the outcome of \<open>puppeteer.launch\<close>, \<open>now\<close> the completion time.
  The \<open>finally\<close> block closes the browser when \<open>this.browser\<close> holds one, and clears the
  field after the close: \<open>closeBrowser\<close> is the outcome of that \<open>browser.close()\<close>, the only
  exception that leaves the function, and when it rejects the field keeps the browser. The
  scraper is shared by all jobs, so \<open>browserSet\<close> says whether \<open>this.browser\<close> still holds
  the browser of an earlier scan when the function is entered: then a failed launch leaves
  that stale browser in the field and the \<open>finally\<close> block closes it. The result is the
  sequence of session-store writes, the exception thrown, if any, and whether
  \<open>this.browser\<close> holds a browser afterwards.
\<close>

definition emptyScanData :: scanData where
  "emptyScanData =
     \<lparr>pages = [], totalPages = 0, pagesProcessed = 0, pagesSkipped = 0, errors = [],
      completedAt = None\<rparr>"

definition startCrawl :: crawl where
  "startCrawl =
     \<lparr>scanData = emptyScanData, thisPagesProcessed = 0, visitedUrls = {},
      sessionUpdates = [StatusScanning]\<rparr>"

definition finallyClose ::
  "bool \<Rightarrow> jsstring option \<Rightarrow> sessionUpdate list
     \<Rightarrow> sessionUpdate list \<times> jsstring option \<times> bool" where
  "finallyClose browserSet closeBrowser updates =
     (if browserSet then (updates, closeBrowser, closeBrowser \<noteq> None)
      else (updates, None, False))"

definition scanWebsite ::
  "bool \<Rightarrow> jsstring option \<Rightarrow> (jsstring \<Rightarrow> visit) \<Rightarrow> jsstring option \<Rightarrow> int \<Rightarrow> jsstring
     \<Rightarrow> sessionUpdate list \<times> jsstring option \<times> bool" where
  "scanWebsite browserSet launch browser closeBrowser now u =
     (case launch of
        Some e \<Rightarrow> finallyClose browserSet closeBrowser [StatusScanning, ScanFailed e emptyScanData]
      | None \<Rightarrow>
          (case scanPage browser u 0 startCrawl of
             (s, None) \<Rightarrow>
               (let sd = (scanData s)\<lparr>completedAt := Some now\<rparr>;
                    sd' = sd\<lparr>totalPages := length (pages sd) + pagesSkipped sd\<rparr>
                in finallyClose True closeBrowser (sessionUpdates s @ [ScanCompleted sd']))
           | (s, Some e) \<Rightarrow>
               finallyClose True closeBrowser (sessionUpdates s @ [ScanFailed e emptyScanData])))"

subsection \<open>Measures and invariants of a crawl\<close>

text \<open>The aggregates written to the session store.\<close>

fun snapshots :: "sessionUpdate list \<Rightarrow> scanData list" where
  "snapshots [] = []"
| "snapshots (StatusScanning # us) = snapshots us"
| "snapshots (Progress sd # us) = sd # snapshots us"
| "snapshots (ScanCompleted sd # us) = sd # snapshots us"
| "snapshots (ScanFailed e sd # us) = sd # snapshots us"

text \<open>
  The counters agree with the sequences they count; \<open>records\<close> is the number of entries of
  \<open>pages\<close> and \<open>errors\<close> together. \<open>grows s s' n\<close>: from \<open>s\<close> to \<open>s'\<close> at most \<open>n\<close> records
  were added and none removed. \<open>visitBound depth\<close> bounds the records one call of
  \<open>scanPage\<close> at that depth adds: one at depth 2 and beyond, and below that one for the page,
  five times the bound of a child, and one more for an exception escaping from a child.
\<close>

definition consistent :: "scanData \<Rightarrow> bool" where
  "consistent sd = (pagesProcessed sd = length (pages sd) \<and> pagesSkipped sd = length (errors sd))"

definition records :: "scanData \<Rightarrow> nat" where
  "records sd = length (pages sd) + length (errors sd)"

definition good :: "crawl \<Rightarrow> bool" where
  "good s =
     (consistent (scanData s) \<and> thisPagesProcessed s = length (pages (scanData s))
      \<and> (\<forall>sd \<in> set (snapshots (sessionUpdates s)).
            consistent sd \<and> records sd \<le> records (scanData s)))"

definition grows :: "crawl \<Rightarrow> crawl \<Rightarrow> nat \<Rightarrow> bool" where
  "grows s s' n =
     (good s' \<and> records (scanData s) \<le> records (scanData s')
      \<and> records (scanData s') \<le> records (scanData s) + n)"

definition visitBound :: "nat \<Rightarrow> nat" where
  "visitBound depth = (if 2 \<le> depth then 1 else if depth = 1 then 7 else 37)"

text \<open>
  The states a call of \<open>scanPage\<close> passes through, from the state it is entered in to the one
  it ends in: after the URL is marked visited, after the page is pushed and counted, after
  the progress write, after the \<open>catch\<close> block, and every state a recursive call passes
  through. Between two of them the crawler awaits something; the assignments in between are
  not interrupted. \<open>duringLinks\<close> is the same for the loop over the links.
\<close>

inductive during :: "(jsstring \<Rightarrow> visit) \<Rightarrow> jsstring \<Rightarrow> nat \<Rightarrow> crawl \<Rightarrow> crawl \<Rightarrow> bool"
  and duringLinks :: "(jsstring \<Rightarrow> visit) \<Rightarrow> jsstring list \<Rightarrow> nat \<Rightarrow> crawl \<Rightarrow> crawl \<Rightarrow> bool"
where
  entered: "during browser u depth s s"
| marked:
    "\<not> (u \<in> visitedUrls s \<or> depth > 3 \<or> thisPagesProcessed s \<ge> maxPages) \<Longrightarrow>
     during browser u depth s (s\<lparr>visitedUrls := insert u (visitedUrls s)\<rparr>)"
| caught:
    "\<not> (u \<in> visitedUrls s \<or> depth > 3 \<or> thisPagesProcessed s \<ge> maxPages) \<Longrightarrow>
     newPage (browser u) = None \<Longrightarrow> render (browser u) = Inl e \<Longrightarrow>
     during browser u depth s (catchError u e (s\<lparr>visitedUrls := insert u (visitedUrls s)\<rparr>))"
| recorded:
    "\<not> (u \<in> visitedUrls s \<or> depth > 3 \<or> thisPagesProcessed s \<ge> maxPages) \<Longrightarrow>
     newPage (browser u) = None \<Longrightarrow> render (browser u) = Inr pd \<Longrightarrow>
     during browser u depth s (recordPage u pd (s\<lparr>visitedUrls := insert u (visitedUrls s)\<rparr>))"
| flushed:
    "\<not> (u \<in> visitedUrls s \<or> depth > 3 \<or> thisPagesProcessed s \<ge> maxPages) \<Longrightarrow>
     newPage (browser u) = None \<Longrightarrow> render (browser u) = Inr pd \<Longrightarrow>
     during browser u depth s
       (updateProgress (recordPage u pd (s\<lparr>visitedUrls := insert u (visitedUrls s)\<rparr>)))"
| in_links:
    "\<not> (u \<in> visitedUrls s \<or> depth > 3 \<or> thisPagesProcessed s \<ge> maxPages) \<Longrightarrow>
     newPage (browser u) = None \<Longrightarrow> render (browser u) = Inr pd \<Longrightarrow>
     depth < 2 \<and> length (internalLinks pd) > 0 \<Longrightarrow>
     duringLinks browser (take 5 (internalLinks pd)) (depth + 1)
       (updateProgress (recordPage u pd (s\<lparr>visitedUrls := insert u (visitedUrls s)\<rparr>))) x \<Longrightarrow>
     during browser u depth s x"
| caught_from_links:
    "\<not> (u \<in> visitedUrls s \<or> depth > 3 \<or> thisPagesProcessed s \<ge> maxPages) \<Longrightarrow>
     newPage (browser u) = None \<Longrightarrow> render (browser u) = Inr pd \<Longrightarrow>
     depth < 2 \<and> length (internalLinks pd) > 0 \<Longrightarrow>
     scanLinks browser (take 5 (internalLinks pd)) (depth + 1)
       (updateProgress (recordPage u pd (s\<lparr>visitedUrls := insert u (visitedUrls s)\<rparr>)))
       = (s3, Some e) \<Longrightarrow>
     during browser u depth s (catchError u e s3)"
| loop_entered: "duringLinks browser links depth s s"
| in_page:
    "thisPagesProcessed s < maxPages \<Longrightarrow> during browser link depth s x \<Longrightarrow>
     duringLinks browser (link # links) depth s x"
| in_rest:
    "thisPagesProcessed s < maxPages \<Longrightarrow> scanPage browser link depth s = (s', None) \<Longrightarrow>
     duringLinks browser links depth s' x \<Longrightarrow>
     duringLinks browser (link # links) depth s x"
| in_rest_skipped:
    "\<not> thisPagesProcessed s < maxPages \<Longrightarrow> duringLinks browser links depth s x \<Longrightarrow>
     duringLinks browser (link # links) depth s x"

code_pred during .

text \<open>
  The links a page is expanded by, and the URLs a call of \<open>scanPage\<close> at a given depth can
  reach through them: the page itself at depth 2 and beyond, the page and its expanded links
  at depth 1, and two levels of expanded links at depth 0.
\<close>

definition linksOf :: "(jsstring \<Rightarrow> visit) \<Rightarrow> jsstring \<Rightarrow> jsstring list" where
  "linksOf browser u =
     (case render (browser u) of Inl e \<Rightarrow> [] | Inr pd \<Rightarrow> take 5 (internalLinks pd))"

definition reach :: "(jsstring \<Rightarrow> visit) \<Rightarrow> nat \<Rightarrow> jsstring \<Rightarrow> jsstring set" where
  "reach browser depth u =
     (if 2 \<le> depth then {u}
      else if depth = 1 then insert u (set (linksOf browser u))
      else insert u (\<Union>c \<in> set (linksOf browser u). insert c (set (linksOf browser c))))"

definition pages_visited_once :: "crawl \<Rightarrow> bool" where
  "pages_visited_once s =
     (distinct (map pageUrl (pages (scanData s)))
      \<and> set (map pageUrl (pages (scanData s))) \<subseteq> visitedUrls s)"

text \<open>
  A browser whose pages always open and close (rendering may still fail), and the URLs of the
  records of an aggregate, those of \<open>pages\<close> followed by those of \<open>errors\<close>.
\<close>

definition reliable :: "(jsstring \<Rightarrow> visit) \<Rightarrow> bool" where
  "reliable browser = (\<forall>u. newPage (browser u) = None \<and> closePage (browser u) = None)"

definition record_urls :: "scanData \<Rightarrow> jsstring list" where
  "record_urls sd = map pageUrl (pages sd) @ map fst (errors sd)"

definition visited_once :: "crawl \<Rightarrow> bool" where
  "visited_once s =
     (distinct (record_urls (scanData s)) \<and> set (record_urls (scanData s)) \<subseteq> visitedUrls s)"

subsection \<open>Concrete sites\<close>

text \<open>
  \<open>small_site\<close>: page A links to B, C and D; B links back to A; D has no links; rendering C
  times out. \<open>close_fails_after_timeout\<close>: page A links to C and D; rendering C times out and
  closing its page fails as well; every other page renders, without links.
  \<open>child_page_fails\<close>: page A links to B, and no page can be opened for any URL but
  A (\<open>browser.newPage()\<close> rejects).
\<close>

definition plain_page :: "jsstring list \<Rightarrow> pageData" where
  "plain_page links =
     \<lparr>title = lit ''T'', metaDescription = [], headings = \<lparr>h1 = [], h2 = [], h3 = []\<rparr>,
      images = [], wordCount = 0, hasContent = False, internalLinks = links\<rparr>"

definition renders :: "jsstring list \<Rightarrow> visit" where
  "renders links = \<lparr>newPage = None, render = Inr (plain_page links), closePage = None\<rparr>"

definition small_site :: "jsstring \<Rightarrow> visit" where
  "small_site u =
     (if u = lit ''A'' then renders [lit ''B'', lit ''C'', lit ''D'']
      else if u = lit ''B'' then renders [lit ''A'']
      else if u = lit ''D'' then renders []
      else \<lparr>newPage = None, render = Inl (lit ''Navigation timeout''), closePage = None\<rparr>)"

definition close_fails_after_timeout :: "jsstring \<Rightarrow> visit" where
  "close_fails_after_timeout u =
     (if u = lit ''A'' then renders [lit ''C'', lit ''D'']
      else if u = lit ''C''
      then \<lparr>newPage = None, render = Inl (lit ''Navigation timeout''),
            closePage = Some (lit ''Target closed'')\<rparr>
      else renders [])"

definition child_page_fails :: "jsstring \<Rightarrow> visit" where
  "child_page_fails u =
     (if u = lit ''A'' then renders [lit ''B'']
      else \<lparr>newPage = Some (lit ''Target closed''), render = Inl [], closePage = None\<rparr>)"

section \<open>Theorems about the recommendation engine\<close>

text \<open>
  C6. For every page-data record the priority computed by \<open>calculatePriority\<close> is the one the
  scoring rule prescribes: 2 points for a title outside [30,60] (an absent title has length 0),
  2 for a meta description outside [120,160], 3 for a page without substantial content, 1 for
  no H1, 1 per image without alt text up to 2; high from 5 points, medium from 2, low below.
\<close>

theorem calculatePriority_spec:
  "calculatePriority pd = spec_priority pd"
proof -
  have win_t: "(title pd = [] \<or> length (title pd) < 30 \<or> length (title pd) > 60)
      = outside_window 30 60 (title pd)"
    by (auto simp: outside_window_def)
  have win_d: "(metaDescription pd = [] \<or> length (metaDescription pd) < 120
      \<or> length (metaDescription pd) > 160) = outside_window 120 160 (metaDescription pd)"
    by (auto simp: outside_window_def)
  show ?thesis
    unfolding calculatePriority_def spec_priority_def spec_score_def Let_def win_t win_d
      missing_alt_count_def
    by (simp add: min_def)
qed

text \<open>
  C7 (as the code has it). The optimized title is the original title when its length is within
  [30,60]; a title longer than 60 is cut to its first 57 code units followed by \<open>...\<close>; a title
  shorter than 30 (the empty title included) is replaced by: the generic
  \<open>Untitled Page | Your Brand\<close> when there is no first H1 or it is empty, the first H1
  followed by the brand suffix \<open> | Your Brand\<close> when that H1 has at most 50 code units, and
  the first 50 code units of the H1 followed by \<open>...\<close>, with no brand suffix, when it is
  longer.
\<close>

theorem optimizedTitle_cases:
  "recTitle (generateRecommendations pd) =
     (if 30 \<le> length (title pd) \<and> length (title pd) \<le> 60 then title pd
      else if 60 < length (title pd) then take 57 (title pd) @ lit ''...''
      else (case h1 (headings pd) of
              [] \<Rightarrow> lit ''Untitled Page | Your Brand''
            | h # _ \<Rightarrow>
                if h = [] then lit ''Untitled Page | Your Brand''
                else if length h \<le> 50 then h @ lit '' | Your Brand''
                else take 50 h @ lit ''...''))"
proof (cases "h1 (headings pd)")
  case Nil
  then show ?thesis
    by (simp add: generateRecommendations_def optimizeTitle_def Let_def)
next
  case (Cons h hs)
  then show ?thesis
    by (simp add: generateRecommendations_def optimizeTitle_def Let_def)
qed

text \<open>
  The claim as written fails for a long H1: with an empty title and a first H1 of 51 code
  units, the optimized title is the H1's first 50 code units followed by \<open>...\<close>, not followed
  by the brand suffix.
\<close>

theorem optimizedTitle_long_h1_counterexample:
  "length (title long_h1_page) < 30
   \<and> first (h1 (headings long_h1_page)) = Some (replicate 51 97)
   \<and> recTitle (generateRecommendations long_h1_page) = replicate 50 97 @ lit ''...''
   \<and> recTitle (generateRecommendations long_h1_page)
       \<noteq> take 50 (replicate 51 97) @ lit '' | Your Brand''"
  by (simp add: long_h1_page_def generateRecommendations_def optimizeTitle_def Let_def lit_def)

section \<open>Theorems about the job queue\<close>

lemma nth_update_any:
  "r < length xs \<Longrightarrow> xs[j := f (xs ! j)] ! r = (if r = j then f (xs ! r) else xs ! r)"
  by (cases "j < length xs") (auto simp: nth_list_update)

lemma heap_setStatus:
  "r < length (heap s) \<Longrightarrow>
   heap (setStatus job st s) ! r = (if r = job then (heap s ! r)\<lparr>status := st\<rparr> else heap s ! r)"
  unfolding setStatus_def by (simp add: nth_update_any[where f="\<lambda>j. j\<lparr>status := st\<rparr>"])

lemma length_heap_setStatus [simp]: "length (heap (setStatus job st s)) = length (heap s)"
  by (simp add: setStatus_def)

lemma setStatus_fields [simp]:
  "queue (setStatus job st s) = queue s"
  "processing (setStatus job st s) = processing s"
  "suspended (setStatus job st s) = suspended s"
  "timers (setStatus job st s) = timers s"
  by (simp_all add: setStatus_def)

lemma set_map_set: "set (map snd (map_set m k v)) \<subseteq> insert v (set (map snd m))"
  by (induction m) auto

lemma distinct_map_set:
  "distinct (map snd m) \<Longrightarrow> v \<notin> set (map snd m) \<Longrightarrow> distinct (map snd (map_set m k v))"
proof (induction m)
  case Nil
  then show ?case by simp
next
  case (Cons e m)
  have "v \<noteq> snd e" "v \<notin> set (map snd m)" using Cons.prems by auto
  moreover have "snd e \<notin> set (map snd (map_set m k v))"
    using set_map_set[of m k v] Cons.prems by auto
  ultimately show ?case using Cons by auto
qed

lemma pendingJobs_set:
  "set (pendingJobs s) = {r \<in> set (map snd (queue s)). status (heap s ! r) = Pending}"
  by (auto simp: pendingJobs_def)

lemma pendingJobs_hd:
  assumes "pendingJobs s = job # rest"
  shows "job \<in> set (map snd (queue s))" "status (heap s ! job) = Pending"
proof -
  have "job \<in> set (pendingJobs s)" using assms by simp
  then show "job \<in> set (map snd (queue s))" "status (heap s ! job) = Pending"
    unfolding pendingJobs_set by auto
qed

lemma loop_cases:
  obtains (exit) "pendingJobs s = []" "loop s = s\<lparr>processing := False, suspended := Idle\<rparr>"
  | (pick) job rest where "pendingJobs s = job # rest"
      "loop s = (setStatus job Processing s)\<lparr>suspended := AwaitExecuteJob job\<rparr>"
proof (cases "pendingJobs s")
  case Nil
  then have "loop s = s\<lparr>processing := False, suspended := Idle\<rparr>"
    by (simp add: loop_def)
  with Nil show ?thesis by (rule exit)
next
  case (Cons job rest)
  then have "queue s \<noteq> []" by (auto simp: pendingJobs_def)
  then have "loop s = (setStatus job Processing s)\<lparr>suspended := AwaitExecuteJob job\<rparr>"
    using Cons by (simp add: loop_def)
  with Cons show ?thesis by (rule pick)
qed

lemma loop_single_flight:
  assumes "refs_ok s" "quiet s" "processing s"
  shows "single_flight (loop s)"
proof (cases s rule: loop_cases)
  case exit
  then show ?thesis using assms by (simp add: single_flight_def quiet_def)
next
  case (pick job rest)
  have "job < length (heap s)"
    using pendingJobs_hd(1)[OF pick(1)] assms(1) by (auto simp: refs_ok_def)
  then show ?thesis using assms pick(2)
    by (auto simp: single_flight_def quiet_def heap_setStatus)
qed

lemma loop_refs_ok: "refs_ok s \<Longrightarrow> refs_ok (loop s)"
  by (cases s rule: loop_cases) (auto simp: refs_ok_def)

lemma loop_attempts_ok:
  assumes "attempts_ok s"
  shows "attempts_ok (loop s)"
proof (cases s rule: loop_cases)
  case exit
  then show ?thesis using assms by (simp add: attempts_ok_def)
next
  case (pick job rest)
  have "status (heap s ! job) = Pending" using pendingJobs_hd(2)[OF pick(1)] .
  then show ?thesis using assms pick(2)
    by (auto simp: attempts_ok_def heap_setStatus)
qed

lemma inv_initial: "queue_inv initial"
  by (simp add: queue_inv_def initial_def refs_ok_def single_flight_def attempts_ok_def)

lemma inv_add:
  assumes "queue_inv s"
  shows "queue_inv (add jobData jid now s)"
proof -
  define s1 where "s1 = s\<lparr>heap := heap s @ [\<lparr>jobId = jid, data = jobData, status = Pending,
                                     createdAt = now, attempts = 0\<rparr>],
                 queue := map_set (queue s) jid (length (heap s))\<rparr>"
  have add: "add jobData jid now s = (if \<not> processing s1 then processQueue s1 else s1)"
    by (simp add: add_def s1_def Let_def)
  have fresh: "length (heap s) \<notin> set (map snd (queue s))"
    using assms by (auto simp: queue_inv_def refs_ok_def)
  have "\<forall>r \<in> set (map snd (queue s1)). r < length (heap s1)"
  proof
    fix r assume "r \<in> set (map snd (queue s1))"
    then have "r \<in> insert (length (heap s)) (set (map snd (queue s)))"
      using set_map_set[of "queue s" jid "length (heap s)"] by (auto simp: s1_def)
    then show "r < length (heap s1)"
      using assms by (auto simp: queue_inv_def refs_ok_def s1_def)
  qed
  moreover have "distinct (map snd (queue s1))"
    using assms fresh distinct_map_set[of "queue s" "length (heap s)" jid]
    by (simp add: queue_inv_def refs_ok_def s1_def)
  ultimately have r1: "refs_ok s1" by (simp add: refs_ok_def)
  have a1: "attempts_ok s1"
    using assms by (auto simp: queue_inv_def attempts_ok_def s1_def nth_append less_Suc_eq)
  have sf_eq: "\<forall>r < length (heap s1). (status (heap s1 ! r) = Processing) = (suspended s = AwaitExecuteJob r)"
    using assms by (auto simp: queue_inv_def single_flight_def s1_def nth_append less_Suc_eq)
  show ?thesis
  proof (cases "processing s1")
    case True
    then have "single_flight s1"
      using assms sf_eq by (auto simp: queue_inv_def single_flight_def s1_def)
    then show ?thesis using True add r1 a1 by (simp add: queue_inv_def)
  next
    case False
    then have idle: "suspended s = Idle" using assms by (auto simp: queue_inv_def single_flight_def s1_def)
    let ?s2 = "s1\<lparr>processing := True\<rparr>"
    have "quiet ?s2" using sf_eq idle by (auto simp: quiet_def)
    moreover have "refs_ok ?s2" using r1 by (simp add: refs_ok_def)
    moreover have "attempts_ok ?s2" using a1 by (simp add: attempts_ok_def)
    ultimately have "queue_inv (loop ?s2)"
      using loop_single_flight[of ?s2] loop_refs_ok[of ?s2] loop_attempts_ok[of ?s2]
      by (simp add: queue_inv_def)
    then show ?thesis using False add by (simp add: processQueue_def)
  qed
qed

lemma heap_incAttempts:
  "r < length (heap s) \<Longrightarrow>
   heap (incAttempts job s) ! r =
     (if r = job then (heap s ! r)\<lparr>attempts := attempts (heap s ! r) + 1\<rparr> else heap s ! r)"
  unfolding incAttempts_def
  by (simp add: nth_update_any[where f="\<lambda>j. j\<lparr>attempts := attempts j + 1\<rparr>"])

lemma length_heap_incAttempts [simp]: "length (heap (incAttempts job s)) = length (heap s)"
  by (simp add: incAttempts_def)

lemma incAttempts_fields [simp]:
  "queue (incAttempts job s) = queue s"
  "processing (incAttempts job s) = processing s"
  "suspended (incAttempts job s) = suspended s"
  "timers (incAttempts job s) = timers s"
  by (simp_all add: incAttempts_def)

lemma setTimeout_delete_fields [simp]:
  "heap (setTimeout_delete job s) = heap s"
  "queue (setTimeout_delete job s) = queue s"
  "processing (setTimeout_delete job s) = processing s"
  "suspended (setTimeout_delete job s) = suspended s"
  by (simp_all add: setTimeout_delete_def)

lemma attempts_okI:
  assumes "\<And>r. r < length (heap s) \<Longrightarrow> attempts (heap s ! r) \<le> 3"
    and "\<And>r. r < length (heap s) \<Longrightarrow> (status (heap s ! r) = Failed) = (attempts (heap s ! r) = 3)"
  shows "attempts_ok s"
  using assms by (simp add: attempts_ok_def)

lemma attempts_okD:
  assumes "attempts_ok s" "r < length (heap s)"
  shows "attempts (heap s ! r) \<le> 3"
    and "(status (heap s ! r) = Failed) = (attempts (heap s ! r) = 3)"
  using assms by (simp_all add: attempts_ok_def)

lemma single_flightD:
  assumes "single_flight s"
  shows "r < length (heap s) \<Longrightarrow> (status (heap s ! r) = Processing) = (suspended s = AwaitExecuteJob r)"
    and "suspended s = AwaitExecuteJob j \<Longrightarrow> j < length (heap s)"
    and "processing s = (suspended s \<noteq> Idle)"
  using assms by (simp_all add: single_flight_def)

lemma quietI:
  assumes "\<And>r. r < length (heap s) \<Longrightarrow> status (heap s ! r) \<noteq> Processing"
  shows "quiet s"
  using assms by (simp add: quiet_def)

lemma inv_loop:
  assumes "refs_ok s" "quiet s" "processing s" "attempts_ok s"
  shows "queue_inv (loop s)"
  using assms loop_single_flight loop_refs_ok loop_attempts_ok by (simp add: queue_inv_def)

lemma inv_resolved:
  assumes "queue_inv s"
  shows "queue_inv (executeJob_resolved s)"
proof (cases "suspended s")
  case (AwaitExecuteJob job)
  let ?s1 = "setTimeout_delete job (setStatus job Completed s)"
  have sf: "single_flight s" and job: "job < length (heap s)"
    using assms AwaitExecuteJob by (auto simp: queue_inv_def single_flight_def)
  have "refs_ok ?s1" using assms by (simp add: queue_inv_def refs_ok_def)
  moreover have "quiet ?s1"
  proof (rule quietI)
    fix r assume "r < length (heap ?s1)"
    then show "status (heap ?s1 ! r) \<noteq> Processing"
      using single_flightD(1)[OF sf, of r] AwaitExecuteJob by (cases "r = job") (simp_all add: heap_setStatus)
  qed
  moreover have "processing ?s1"
    using sf AwaitExecuteJob by (simp add: single_flight_def)
  moreover have "attempts_ok ?s1"
  proof -
    have ao: "attempts_ok s" using assms by (simp add: queue_inv_def)
    have "status (heap s ! job) = Processing"
      using sf job AwaitExecuteJob by (simp add: single_flight_def)
    then have n3: "attempts (heap s ! job) \<noteq> 3"
      using attempts_okD(2)[OF ao job] by simp
    show ?thesis
    proof (rule attempts_okI)
      fix r assume r: "r < length (heap ?s1)"
      then show "attempts (heap ?s1 ! r) \<le> 3"
        using attempts_okD(1)[OF ao, of r] by (cases "r = job") (simp_all add: heap_setStatus)
      show "(status (heap ?s1 ! r) = Failed) = (attempts (heap ?s1 ! r) = 3)"
        using attempts_okD(2)[OF ao, of r] r n3 by (cases "r = job") (simp_all add: heap_setStatus)
    qed
  qed
  ultimately have "queue_inv (loop ?s1)" by (rule inv_loop)
  then show ?thesis using AwaitExecuteJob by (simp add: executeJob_resolved_def)
qed (use assms in \<open>simp_all add: executeJob_resolved_def\<close>)

lemma inv_rejected:
  assumes "queue_inv s"
  shows "queue_inv (executeJob_rejected s)"
proof (cases "suspended s")
  case (AwaitExecuteJob job)
  let ?s1 = "incAttempts job s"
  have sf: "single_flight s" and job: "job < length (heap s)"
    and ro: "refs_ok s" and ao: "attempts_ok s"
    using assms AwaitExecuteJob by (auto simp: queue_inv_def single_flight_def)
  have proc: "status (heap s ! job) = Processing"
    using sf job AwaitExecuteJob by (simp add: single_flight_def)
  then have le2: "attempts (heap s ! job) \<le> 2"
    using attempts_okD[OF ao job] by simp
  have at1: "attempts (heap ?s1 ! job) = attempts (heap s ! job) + 1"
    using job by (simp add: heap_incAttempts)
  show ?thesis
  proof (cases "attempts (heap ?s1 ! job) < 3")
    case True
    let ?s2 = "(setStatus job Pending ?s1)\<lparr>suspended := AwaitDelay\<rparr>"
    have eq: "executeJob_rejected s = ?s2"
      using AwaitExecuteJob True by (simp add: executeJob_rejected_def Let_def)
    have "refs_ok ?s2" using ro by (simp add: refs_ok_def)
    moreover have "single_flight ?s2"
      unfolding single_flight_def
    proof (intro conjI allI impI)
      fix r assume "r < length (heap ?s2)"
      then show "(status (heap ?s2 ! r) = Processing) = (suspended ?s2 = AwaitExecuteJob r)"
        using single_flightD(1)[OF sf, of r] AwaitExecuteJob
        by (cases "r = job") (simp_all add: heap_setStatus heap_incAttempts)
    next
      fix j assume "suspended ?s2 = AwaitExecuteJob j"
      then show "j < length (heap ?s2)" by simp
    next
      show "processing ?s2 = (suspended ?s2 \<noteq> Idle)"
        using single_flightD(3)[OF sf] AwaitExecuteJob by simp
    qed
    moreover have "attempts_ok ?s2"
    proof (rule attempts_okI)
      fix r assume r: "r < length (heap ?s2)"
      then show "attempts (heap ?s2 ! r) \<le> 3"
        using attempts_okD(1)[OF ao, of r] le2 by (cases "r = job") (simp_all add: heap_setStatus heap_incAttempts)
      show "(status (heap ?s2 ! r) = Failed) = (attempts (heap ?s2 ! r) = 3)"
        using attempts_okD(2)[OF ao, of r] r True at1
        by (cases "r = job") (simp_all add: heap_setStatus heap_incAttempts)
    qed
    ultimately show ?thesis using eq by (simp add: queue_inv_def)
  next
    case False
    let ?s2 = "setTimeout_delete job (setStatus job Failed ?s1)"
    have eq: "executeJob_rejected s = loop ?s2"
      using AwaitExecuteJob False by (simp add: executeJob_rejected_def Let_def)
    have three: "attempts (heap s ! job) + 1 = 3" using False at1 le2 by simp
    have "refs_ok ?s2" using ro by (simp add: refs_ok_def)
    moreover have "quiet ?s2"
    proof (rule quietI)
      fix r assume "r < length (heap ?s2)"
      then show "status (heap ?s2 ! r) \<noteq> Processing"
        using single_flightD(1)[OF sf, of r] AwaitExecuteJob
        by (cases "r = job") (simp_all add: heap_setStatus heap_incAttempts)
    qed
    moreover have "processing ?s2"
      using sf AwaitExecuteJob by (simp add: single_flight_def)
    moreover have "attempts_ok ?s2"
    proof (rule attempts_okI)
      fix r assume r: "r < length (heap ?s2)"
      then show "attempts (heap ?s2 ! r) \<le> 3"
        using attempts_okD(1)[OF ao, of r] three by (cases "r = job") (simp_all add: heap_setStatus heap_incAttempts)
      show "(status (heap ?s2 ! r) = Failed) = (attempts (heap ?s2 ! r) = 3)"
        using attempts_okD(2)[OF ao, of r] r three
        by (cases "r = job") (simp_all add: heap_setStatus heap_incAttempts)
    qed
    ultimately have "queue_inv (loop ?s2)" by (rule inv_loop)
    then show ?thesis using eq by simp
  qed
qed (use assms in \<open>simp_all add: executeJob_rejected_def\<close>)

lemma inv_delay:
  assumes "queue_inv s"
  shows "queue_inv (delay_elapsed s)"
proof (cases "suspended s")
  case AwaitDelay
  have "quiet s" "processing s"
    using assms AwaitDelay by (auto simp: queue_inv_def single_flight_def quiet_def)
  then have "queue_inv (loop s)" using assms inv_loop by (simp add: queue_inv_def)
  then show ?thesis using AwaitDelay by (simp add: delay_elapsed_def)
qed (use assms in \<open>simp_all add: delay_elapsed_def\<close>)

lemma refs_ok_filter:
  assumes "refs_ok s"
  shows "refs_ok (s\<lparr>queue := filter P (queue s), timers := ts\<rparr>)"
    and "refs_ok (s\<lparr>queue := filter P (queue s)\<rparr>)"
  using assms by (auto simp: refs_ok_def distinct_map_filter)

lemma inv_timer:
  assumes "queue_inv s"
  shows "queue_inv (timer_fired i s)"
proof (cases "i < length (timers s)")
  case True
  let ?s1 = "s\<lparr>queue := filter (\<lambda>e. fst e \<noteq> timers s ! i) (queue s),
               timers := take i (timers s) @ drop (Suc i) (timers s)\<rparr>"
  have eq: "timer_fired i s = ?s1" using True by (simp add: timer_fired_def map_delete_def)
  have "refs_ok ?s1" using assms refs_ok_filter(1)[of s] by (simp add: queue_inv_def)
  moreover have "single_flight ?s1" using assms by (simp add: queue_inv_def single_flight_def)
  moreover have "attempts_ok ?s1" using assms by (simp add: queue_inv_def attempts_ok_def)
  ultimately show ?thesis using eq by (simp add: queue_inv_def)
next
  case False
  then show ?thesis using assms by (simp add: timer_fired_def)
qed

lemma inv_cleanup:
  assumes "queue_inv s"
  shows "queue_inv (cleanup now s)"
proof -
  have "refs_ok (cleanup now s)"
    using assms refs_ok_filter(2)[of s] by (simp add: queue_inv_def cleanup_def Let_def)
  moreover have "single_flight (cleanup now s)"
    using assms by (simp add: queue_inv_def single_flight_def cleanup_def Let_def)
  moreover have "attempts_ok (cleanup now s)"
    using assms by (simp add: queue_inv_def attempts_ok_def cleanup_def Let_def)
  ultimately show ?thesis by (simp add: queue_inv_def)
qed

lemma inv_step: "queue_inv s \<Longrightarrow> queue_inv (step e s)"
  by (cases e) (simp_all add: inv_add inv_resolved inv_rejected inv_delay inv_timer inv_cleanup)

lemma run_snoc: "run (evs @ [e]) = step e (run evs)"
  by (simp add: run_def)

lemma inv_run: "queue_inv (run evs)"
proof (induction evs rule: rev_induct)
  case Nil
  then show ?case by (simp add: run_def inv_initial)
next
  case (snoc e evs)
  then show ?case by (simp add: run_snoc inv_step)
qed

lemma processing_count:
  assumes "distinct rs" "\<forall>r \<in> set rs. P r \<longrightarrow> r = j"
  shows "length (filter P rs) \<le> 1"
  using assms
proof (induction rs)
  case Nil
  then show ?case by simp
next
  case (Cons r rs)
  show ?case
  proof (cases "P r")
    case True
    have "\<not> P x" if "x \<in> set rs" for x
    proof
      assume "P x"
      then have "x = j" using Cons.prems(2) that by simp
      moreover have "r = j" using Cons.prems(2) True by simp
      ultimately show False using Cons.prems(1) that by simp
    qed
    then have "filter P rs = []" by (simp add: filter_empty_conv)
    then show ?thesis by simp
  next
    case False
    have "length (filter P rs) \<le> 1"
      using Cons.IH Cons.prems by simp
    then show ?thesis using False by simp
  qed
qed

lemma st_processing_refs:
  "st_processing (getQueueStats s) =
     length (filter (\<lambda>r. status (heap s ! r) = Processing) (map snd (queue s)))"
  unfolding getQueueStats_def Let_def
  by (simp add: length_filter_map o_def)

text \<open>
  C1. After every sequence of events of the scheduler (calls of \<open>add\<close>, executions ending
  either way, delays ending, timers firing, calls of \<open>cleanup\<close>) the snapshot returned by
  \<open>getQueueStats\<close> counts 0 or 1 processing jobs: at most one job of the map has the status
  \<open>Processing\<close>.
\<close>

theorem single_flight_stats:
  "st_processing (getQueueStats (run evs)) = 0 \<or> st_processing (getQueueStats (run evs)) = 1"
proof -
  let ?s = "run evs"
  let ?P = "\<lambda>r. status (heap ?s ! r) = Processing"
  have i: "queue_inv ?s" by (rule inv_run)
  then have sf: "single_flight ?s" and ro: "refs_ok ?s" by (simp_all add: queue_inv_def)
  define j where "j = (case suspended ?s of AwaitExecuteJob job \<Rightarrow> job | _ \<Rightarrow> 0)"
  have "\<forall>r \<in> set (map snd (queue ?s)). ?P r \<longrightarrow> r = j"
  proof (intro ballI impI)
    fix r assume "r \<in> set (map snd (queue ?s))" and p: "?P r"
    then have "r < length (heap ?s)" using ro by (auto simp: refs_ok_def)
    then have "suspended ?s = AwaitExecuteJob r" using single_flightD(1)[OF sf] p by simp
    then show "r = j" by (simp add: j_def)
  qed
  moreover have "distinct (map snd (queue ?s))" using ro by (simp add: refs_ok_def)
  ultimately have "length (filter ?P (map snd (queue ?s))) \<le> 1"
    using processing_count[of "map snd (queue ?s)" ?P j] by simp
  then show ?thesis unfolding st_processing_refs by linarith
qed

lemma partition_by_status:
  "length jobs =
     length (filter (\<lambda>job. status job = Pending) jobs)
   + length (filter (\<lambda>job. status job = Processing) jobs)
   + length (filter (\<lambda>job. status job = Completed) jobs)
   + length (filter (\<lambda>job. status job = Failed) jobs)"
proof (induction jobs)
  case Nil
  then show ?case by simp
next
  case (Cons job jobs)
  then show ?case by (cases "status job") simp_all
qed

text \<open>
  C10. In every state of the queue each job has exactly one of the four statuses, so the
  snapshot of \<open>getQueueStats\<close> satisfies total = pending + processing + completed + failed.
\<close>

theorem stats_total:
  "st_total (getQueueStats s) =
     st_pending (getQueueStats s) + st_processing (getQueueStats s)
   + st_completed (getQueueStats s) + st_failed (getQueueStats s)"
  unfolding getQueueStats_def Let_def
  using partition_by_status[of "map (\<lambda>e. heap s ! snd e) (queue s)"] by simp

lemma find_first_filter: "find P xs = first (filter P xs)"
  by (induction xs) simp_all

text \<open>
  C8. When the loop of \<open>processQueue\<close> picks a job (the head of the sorted array
  \<open>pendingJobs\<close>), that job is in the map and pending, no pending job of the map was created
  earlier, among the pending jobs created at the same time it is the first in the map's
  insertion order, and the loop marks it \<open>Processing\<close> before it awaits its execution.
\<close>

theorem loop_picks_earliest_pending:
  assumes refs: "\<forall>r \<in> set (map snd (queue s)). r < length (heap s)"
    and pick: "pendingJobs s = job # rest"
  shows "job \<in> set (map snd (queue s)) \<and> status (heap s ! job) = Pending
    \<and> (\<forall>r \<in> set (map snd (queue s)). status (heap s ! r) = Pending
          \<longrightarrow> createdAt (heap s ! job) \<le> createdAt (heap s ! r))
    \<and> find (\<lambda>r. status (heap s ! r) = Pending \<and> createdAt (heap s ! r) = createdAt (heap s ! job))
         (map snd (queue s)) = Some job
    \<and> status (heap (loop s) ! job) = Processing
    \<and> suspended (loop s) = AwaitExecuteJob job"
proof -
  let ?key = "\<lambda>r. createdAt (heap s ! r)"
  let ?pend = "\<lambda>r. status (heap s ! r) = Pending"
  let ?refs = "map snd (queue s)"
  have mem: "job \<in> set ?refs" and pen: "?pend job"
    using pendingJobs_hd[OF pick] by simp_all
  have "sorted (map ?key (pendingJobs s))"
    unfolding pendingJobs_def by (rule sorted_sort_key)
  then have le_rest: "\<forall>r \<in> set rest. ?key job \<le> ?key r"
    using pick by simp
  have earliest: "\<forall>r \<in> set ?refs. ?pend r \<longrightarrow> ?key job \<le> ?key r"
  proof (intro ballI impI)
    fix r assume "r \<in> set ?refs" "?pend r"
    then have "r \<in> set (pendingJobs s)" unfolding pendingJobs_set by simp
    then have "r = job \<or> r \<in> set rest" using pick by simp
    then show "?key job \<le> ?key r" using le_rest by auto
  qed
  have "filter (\<lambda>r. ?key r = ?key job) (pendingJobs s)
      = filter (\<lambda>r. ?key r = ?key job) (filter ?pend ?refs)"
    unfolding pendingJobs_def by (rule sort_key_stable)
  then have "filter (\<lambda>r. ?pend r \<and> ?key r = ?key job) ?refs
      = job # filter (\<lambda>r. ?key r = ?key job) rest"
    using pick by (simp add: conj_commute)
  then have tie: "find (\<lambda>r. ?pend r \<and> ?key r = ?key job) ?refs = Some job"
    by (simp add: find_first_filter)
  have lt: "job < length (heap s)" using refs mem by blast
  have lp: "loop s = (setStatus job Processing s)\<lparr>suspended := AwaitExecuteJob job\<rparr>"
    by (cases s rule: loop_cases) (use pick in simp_all)
  have marked: "status (heap (loop s) ! job) = Processing \<and> suspended (loop s) = AwaitExecuteJob job"
    using lt by (simp add: lp heap_setStatus)
  show ?thesis using mem pen earliest tie marked by blast
qed

theorem loop_picks_earliest_pending_witness:
  "pendingJobs tie_state = [2, 3, 1]
   \<and> find (\<lambda>r. status (heap tie_state ! r) = Pending
                \<and> createdAt (heap tie_state ! r) = createdAt (heap tie_state ! 2))
        (map snd (queue tie_state)) = Some 2
   \<and> status (heap (loop tie_state) ! 2) = Processing
   \<and> suspended (loop tie_state) = AwaitExecuteJob 2"
proof -
  have refs: "\<forall>r \<in> set (map snd (queue tie_state)). r < length (heap tie_state)"
    by (simp add: tie_state_def)
  have pick: "pendingJobs tie_state = 2 # [3, 1]"
    by (simp add: pendingJobs_def tie_state_def)
  show ?thesis
    using loop_picks_earliest_pending[OF refs pick] pick by simp
qed

lemma loop_heap:
  assumes "r < length (heap s)"
  shows "length (heap (loop s)) = length (heap s)"
    and "attempts (heap (loop s) ! r) = attempts (heap s ! r)"
    and "jobId (heap (loop s) ! r) = jobId (heap s ! r)"
proof -
  have "length (heap (loop s)) = length (heap s)
     \<and> attempts (heap (loop s) ! r) = attempts (heap s ! r)
     \<and> jobId (heap (loop s) ! r) = jobId (heap s ! r)"
  proof (cases s rule: loop_cases)
    case exit
    then show ?thesis by simp
  next
    case (pick job rest)
    then show ?thesis using assms by (cases "r = job") (simp_all add: heap_setStatus)
  qed
  then show "length (heap (loop s)) = length (heap s)"
    and "attempts (heap (loop s) ! r) = attempts (heap s ! r)"
    and "jobId (heap (loop s) ! r) = jobId (heap s ! r)" by simp_all
qed

lemma step_heap:
  assumes "r < length (heap s)"
  shows "r < length (heap (step e s))
    \<and> attempts (heap s ! r) \<le> attempts (heap (step e s) ! r)
    \<and> jobId (heap (step e s) ! r) = jobId (heap s ! r)"
proof (cases e)
  case (Add jobData jid now)
  let ?s1 = "s\<lparr>heap := heap s @ [\<lparr>jobId = jid, data = jobData, status = Pending,
                                     createdAt = now, attempts = 0\<rparr>],
                 queue := map_set (queue s) jid (length (heap s)),
                 processing := True\<rparr>"
  have r1: "r < length (heap ?s1)" using assms by simp
  show ?thesis
    using assms Add loop_heap[OF r1]
    by (simp add: add_def Let_def processQueue_def nth_append)
next
  case ExecuteJobResolved
  show ?thesis
  proof (cases "suspended s")
    case (AwaitExecuteJob job)
    let ?s1 = "setTimeout_delete job (setStatus job Completed s)"
    have r1: "r < length (heap ?s1)" using assms by simp
    show ?thesis
      using assms ExecuteJobResolved AwaitExecuteJob loop_heap[OF r1]
      by (cases "r = job") (simp_all add: executeJob_resolved_def heap_setStatus)
  qed (use assms ExecuteJobResolved in \<open>simp_all add: executeJob_resolved_def\<close>)
next
  case ExecuteJobRejected
  show ?thesis
  proof (cases "suspended s")
    case (AwaitExecuteJob job)
    let ?s1 = "setTimeout_delete job (setStatus job Failed (incAttempts job s))"
    have r1: "r < length (heap ?s1)" using assms by simp
    show ?thesis
      using assms ExecuteJobRejected AwaitExecuteJob loop_heap[OF r1]
      by (cases "r = job")
        (simp_all add: executeJob_rejected_def Let_def heap_setStatus heap_incAttempts)
  qed (use assms ExecuteJobRejected in \<open>simp_all add: executeJob_rejected_def\<close>)
next
  case DelayElapsed
  show ?thesis
  proof (cases "suspended s")
    case AwaitDelay
    then show ?thesis using assms DelayElapsed loop_heap[OF assms]
      by (simp add: delay_elapsed_def)
  qed (use assms DelayElapsed in \<open>simp_all add: delay_elapsed_def\<close>)
next
  case (TimerFired i)
  then show ?thesis using assms by (simp add: timer_fired_def)
next
  case (Cleanup now)
  then show ?thesis using assms by (simp add: cleanup_def Let_def)
qed

lemma run_append: "run (evs @ evs') = foldl (\<lambda>s e. step e s) (run evs) evs'"
  by (simp add: run_def)

lemma run_heap:
  assumes "r < length (heap (run evs))"
  shows "r < length (heap (run (evs @ evs')))
    \<and> attempts (heap (run evs) ! r) \<le> attempts (heap (run (evs @ evs')) ! r)
    \<and> jobId (heap (run (evs @ evs')) ! r) = jobId (heap (run evs) ! r)"
proof (induction evs' rule: rev_induct)
  case Nil
  then show ?case using assms by simp
next
  case (snoc e evs')
  have "run (evs @ evs' @ [e]) = step e (run (evs @ evs'))"
    using run_snoc[of "evs @ evs'" e] by simp
  then show ?case
    using snoc step_heap[of r "run (evs @ evs')" e] by (simp del: step.simps)
qed

lemma map_get_ref: "map_get m k = Some r \<Longrightarrow> r \<in> set (map snd m)"
  by (induction m) (auto simp: map_get_def split: if_splits)

lemma getJobStatus_ref:
  assumes "getJobStatus s jid = Some job" "refs_ok s"
  obtains r where "r < length (heap s)" "job = heap s ! r"
proof -
  obtain r where r: "map_get (queue s) jid = Some r" "job = heap s ! r"
    using assms(1) by (auto simp: getJobStatus_def)
  have "r \<in> set (map snd (queue s))" using r(1) by (rule map_get_ref)
  then have "r < length (heap s)" using assms(2) by (auto simp: refs_ok_def)
  then show ?thesis using r(2) that by blast
qed

lemma getJobStatus_ok:
  assumes "getJobStatus (run evs) jid = Some job"
  shows "attempts job \<le> 3 \<and> ((status job = Failed) = (attempts job = 3))"
proof -
  have i: "queue_inv (run evs)" by (rule inv_run)
  then have "refs_ok (run evs)" and ao: "attempts_ok (run evs)" by (simp_all add: queue_inv_def)
  then obtain r where "r < length (heap (run evs))" "job = heap (run evs) ! r"
    using getJobStatus_ref[OF assms] by blast
  then show ?thesis using attempts_okD[OF ao] by simp
qed

lemma run_three_failures:
  "heap (run three_failures) =
     [\<lparr>jobId = lit ''j1'', data = a_job, status = Failed, createdAt = 0, attempts = 3\<rparr>]"
  by (simp add: three_failures_def run_def initial_def add_def processQueue_def loop_def
      pendingJobs_def setStatus_def incAttempts_def setTimeout_delete_def
      executeJob_rejected_def delay_elapsed_def Let_def)

text \<open>
  C4. For every job object the scheduler has created, at every point of every run: its
  attempts counter never decreases afterwards (and the object stays the same job), it is at
  most 3, the job's status is \<open>Failed\<close> exactly when the counter is 3, and once the counter
  is 3 the job is failed, with 3 attempts, whatever happens later. The same bound and
  equivalence hold of every job \<open>getJobStatus\<close> returns.
\<close>

theorem attempts_bounded_failed_at_three:
  assumes "r < length (heap (run evs))"
  shows "attempts (heap (run evs) ! r) \<le> attempts (heap (run (evs @ evs')) ! r)
    \<and> jobId (heap (run (evs @ evs')) ! r) = jobId (heap (run evs) ! r)
    \<and> attempts (heap (run evs) ! r) \<le> 3
    \<and> ((status (heap (run evs) ! r) = Failed) = (attempts (heap (run evs) ! r) = 3))
    \<and> (attempts (heap (run evs) ! r) = 3 \<longrightarrow>
         status (heap (run (evs @ evs')) ! r) = Failed
         \<and> attempts (heap (run (evs @ evs')) ! r) = 3)
    \<and> (\<forall>jid job. getJobStatus (run evs) jid = Some job \<longrightarrow>
         attempts job \<le> 3 \<and> ((status job = Failed) = (attempts job = 3)))"
proof -
  let ?s = "run evs" and ?s' = "run (evs @ evs')"
  have later: "r < length (heap ?s')" and mono: "attempts (heap ?s ! r) \<le> attempts (heap ?s' ! r)"
    and same: "jobId (heap ?s' ! r) = jobId (heap ?s ! r)"
    using run_heap[OF assms, of evs'] by simp_all
  have ao: "attempts_ok ?s" and ao': "attempts_ok ?s'"
    using inv_run[of evs] inv_run[of "evs @ evs'"] by (simp_all add: queue_inv_def)
  have b: "attempts (heap ?s ! r) \<le> 3"
    and f: "(status (heap ?s ! r) = Failed) = (attempts (heap ?s ! r) = 3)"
    using attempts_okD[OF ao assms] by simp_all
  have b': "attempts (heap ?s' ! r) \<le> 3"
    and f': "(status (heap ?s' ! r) = Failed) = (attempts (heap ?s' ! r) = 3)"
    using attempts_okD[OF ao' later] by simp_all
  have perm: "attempts (heap ?s ! r) = 3 \<longrightarrow>
      status (heap ?s' ! r) = Failed \<and> attempts (heap ?s' ! r) = 3"
    using mono b' f' by auto
  show ?thesis using mono same b f perm getJobStatus_ok[of evs] by blast
qed

theorem attempts_bounded_failed_at_three_witness:
  "0 < length (heap (run three_failures))
   \<and> attempts (heap (run three_failures) ! 0) = 3
   \<and> status (heap (run three_failures) ! 0) = Failed
   \<and> status (heap (run (three_failures @ afterwards)) ! 0) = Failed
   \<and> attempts (heap (run (three_failures @ afterwards)) ! 0) = 3"
proof -
  have h: "0 < length (heap (run three_failures))"
    by (simp add: run_three_failures)
  have a: "attempts (heap (run three_failures) ! 0) = 3"
    by (simp add: run_three_failures)
  show ?thesis
    using attempts_bounded_failed_at_three[OF h, of afterwards] h a by simp
qed

section \<open>Theorems about the crawler\<close>

lemma snapshots_append: "snapshots (us @ vs) = snapshots us @ snapshots vs"
  by (induction us rule: snapshots.induct) simp_all

lemma scanPage_skip:
  assumes "u \<in> visitedUrls s \<or> depth > 3 \<or> thisPagesProcessed s \<ge> maxPages"
  shows "scanPage browser u depth s = (s, None)"
  using assms by (simp add: scanPage.simps)

lemma scanPage_newPage_fails:
  assumes "\<not> (u \<in> visitedUrls s \<or> depth > 3 \<or> thisPagesProcessed s \<ge> maxPages)"
    and "newPage (browser u) = Some e"
  shows "scanPage browser u depth s = (s\<lparr>visitedUrls := insert u (visitedUrls s)\<rparr>, Some e)"
  using assms by (simp add: scanPage.simps)

lemma scanPage_render_fails:
  assumes "\<not> (u \<in> visitedUrls s \<or> depth > 3 \<or> thisPagesProcessed s \<ge> maxPages)"
    and "newPage (browser u) = None" and "render (browser u) = Inl e"
  shows "scanPage browser u depth s =
    (catchError u e (s\<lparr>visitedUrls := insert u (visitedUrls s)\<rparr>), closePage (browser u))"
  using assms by (simp add: scanPage.simps)

lemma scanPage_leaf:
  assumes "\<not> (u \<in> visitedUrls s \<or> depth > 3 \<or> thisPagesProcessed s \<ge> maxPages)"
    and "newPage (browser u) = None" and "render (browser u) = Inr pd"
    and "\<not> (depth < 2 \<and> length (internalLinks pd) > 0)"
  shows "scanPage browser u depth s =
    (updateProgress (recordPage u pd (s\<lparr>visitedUrls := insert u (visitedUrls s)\<rparr>)),
     closePage (browser u))"
  using assms by (simp add: scanPage.simps Let_def)

lemma scanPage_expand:
  assumes "\<not> (u \<in> visitedUrls s \<or> depth > 3 \<or> thisPagesProcessed s \<ge> maxPages)"
    and "newPage (browser u) = None" and "render (browser u) = Inr pd"
    and "depth < 2 \<and> length (internalLinks pd) > 0"
    and "scanLinks browser (take 5 (internalLinks pd)) (depth + 1)
           (updateProgress (recordPage u pd (s\<lparr>visitedUrls := insert u (visitedUrls s)\<rparr>))) = (s3, r)"
  shows "scanPage browser u depth s =
    ((case r of None \<Rightarrow> s3 | Some e \<Rightarrow> catchError u e s3), closePage (browser u))"
  using assms by (simp add: scanPage.simps Let_def split: option.splits)

lemma good_grows: "good s \<Longrightarrow> grows s s 0"
  by (simp add: grows_def)

lemma grows_trans: "grows s s' n \<Longrightarrow> grows s' s'' m \<Longrightarrow> grows s s'' (n + m)"
  by (simp add: grows_def)

lemma grows_weaken: "grows s s' n \<Longrightarrow> n \<le> m \<Longrightarrow> grows s s' m"
  by (simp add: grows_def)

lemma grows_good: "grows s s' n \<Longrightarrow> good s'"
  by (simp add: grows_def)

lemma grows_visited: "good s \<Longrightarrow> grows s (s\<lparr>visitedUrls := V\<rparr>) 0"
  by (simp add: grows_def good_def)

lemma grows_catchError: "good s \<Longrightarrow> grows s (catchError u e s) 1"
  by (auto simp: grows_def good_def catchError_def Let_def consistent_def records_def)

lemma grows_recordPage:
  assumes "good s"
  shows "grows s (updateProgress (recordPage u pd s)) 1"
proof -
  let ?s1 = "recordPage u pd s"
  have sd: "consistent (scanData ?s1)" "thisPagesProcessed ?s1 = length (pages (scanData ?s1))"
    "records (scanData ?s1) = records (scanData s) + 1"
    "sessionUpdates ?s1 = sessionUpdates s"
    using assms by (simp_all add: good_def recordPage_def Let_def consistent_def records_def)
  have g1: "good ?s1"
    unfolding good_def using sd assms by (auto simp: good_def)
  have "good (updateProgress ?s1)"
    using g1 by (auto simp: updateProgress_def good_def snapshots_append)
  moreover have "records (scanData (updateProgress ?s1)) = records (scanData s) + 1"
    using sd(3) by (simp add: updateProgress_def)
  ultimately show ?thesis by (simp add: grows_def)
qed

lemma visitBound_step: "depth < 2 \<Longrightarrow> 2 + 5 * visitBound (depth + 1) \<le> visitBound depth"
  by (auto simp: visitBound_def)

lemma visitBound_pos: "1 \<le> visitBound depth"
  by (simp add: visitBound_def)

lemma scan_grows:
  "good s \<Longrightarrow> grows s (fst (scanPage browser u depth s)) (visitBound depth)"
  "good s \<Longrightarrow> grows s (fst (scanLinks browser ls depth s)) (length ls * visitBound depth)"
proof (induction browser u depth s and browser ls depth s rule: scanPage_scanLinks.induct)
  case (1 browser u depth s)
  let ?s1 = "s\<lparr>visitedUrls := insert u (visitedUrls s)\<rparr>"
  have g1: "grows s ?s1 0" using "1.prems" by (rule grows_visited)
  show ?case
  proof (cases "u \<in> visitedUrls s \<or> depth > 3 \<or> thisPagesProcessed s \<ge> maxPages")
    case True
    then show ?thesis
      using grows_weaken[OF good_grows[OF "1.prems"], of "visitBound depth"]
      by (simp add: scanPage_skip)
  next
    case guard: False
    show ?thesis
    proof (cases "newPage (browser u)")
      case (Some e)
      then show ?thesis
        using scanPage_newPage_fails[where browser=browser and u=u and depth=depth and s=s, OF guard Some] grows_weaken[OF g1, of "visitBound depth"]
        by simp
    next
      case None
      show ?thesis
      proof (cases "render (browser u)")
        case (Inl e)
        have "grows s (catchError u e ?s1) (0 + 1)"
          using g1 grows_catchError[OF grows_good[OF g1]] by (rule grows_trans)
        then have "grows s (catchError u e ?s1) (visitBound depth)"
          using visitBound_pos[of depth] by (simp add: grows_weaken)
        then show ?thesis
          using scanPage_render_fails[where browser=browser and u=u and depth=depth and s=s, OF guard None Inl] by simp
      next
        case (Inr pd)
        let ?s2 = "updateProgress (recordPage u pd ?s1)"
        have g2: "grows s ?s2 (0 + 1)"
          using g1 grows_recordPage[OF grows_good[OF g1]] by (rule grows_trans)
        show ?thesis
        proof (cases "depth < 2 \<and> length (internalLinks pd) > 0")
          case False
          have "grows s ?s2 (visitBound depth)"
            using g2 visitBound_pos[of depth] by (simp add: grows_weaken)
          then show ?thesis
            using scanPage_leaf[where browser=browser and u=u and depth=depth and s=s, OF guard None Inr False] by simp
        next
          case True
          obtain s3 r where sl: "scanLinks browser (take 5 (internalLinks pd)) (depth + 1) ?s2 = (s3, r)"
            by (cases "scanLinks browser (take 5 (internalLinks pd)) (depth + 1) ?s2")
          have "grows ?s2 (fst (scanLinks browser (take 5 (internalLinks pd)) (depth + 1) ?s2))
                  (length (take 5 (internalLinks pd)) * visitBound (depth + 1))"
            using "1.IH"[OF guard refl None Inr refl True grows_good[OF g2]] .
          then have "grows ?s2 s3 (5 * visitBound (depth + 1))"
            using sl by (simp add: grows_weaken)
          then have g3: "grows s s3 (0 + 1 + 5 * visitBound (depth + 1))"
            using g2 grows_trans by blast
          have "grows s (case r of None \<Rightarrow> s3 | Some e \<Rightarrow> catchError u e s3)
                  (0 + 1 + 5 * visitBound (depth + 1) + 1)"
          proof (cases r)
            case None
            then show ?thesis using g3 by (simp add: grows_weaken)
          next
            case (Some e)
            then show ?thesis
              using grows_trans[OF g3 grows_catchError[OF grows_good[OF g3]]] by simp
          qed
          then have "grows s (case r of None \<Rightarrow> s3 | Some e \<Rightarrow> catchError u e s3) (visitBound depth)"
            using visitBound_step[of depth] True by (simp add: grows_weaken)
          then show ?thesis
            using scanPage_expand[where browser=browser and u=u and depth=depth and s=s, OF guard None Inr True sl] by simp
        qed
      qed
    qed
  qed
next
  case (2 browser depth s)
  then show ?case by (simp add: good_grows)
next
  case (3 browser link links depth s)
  show ?case
  proof (cases "thisPagesProcessed s < maxPages")
    case False
    then have "grows s (fst (scanLinks browser links depth s)) (length links * visitBound depth)"
      using "3.IH"(3) "3.prems" by simp
    then show ?thesis using False by (simp add: grows_weaken)
  next
    case True
    obtain s' r where sp: "scanPage browser link depth s = (s', r)"
      by (cases "scanPage browser link depth s")
    have g1: "grows s s' (visitBound depth)"
      using "3.IH"(1)[OF True "3.prems"] sp by simp
    show ?thesis
    proof (cases r)
      case None
      have "grows s' (fst (scanLinks browser links depth s')) (length links * visitBound depth)"
        using "3.IH"(2)[OF True sp[symmetric] None grows_good[OF g1]] .
      then have "grows s (fst (scanLinks browser links depth s'))
          (visitBound depth + length links * visitBound depth)"
        using g1 grows_trans by blast
      then show ?thesis using True sp None by simp
    next
      case (Some e)
      then show ?thesis using True sp g1 by (simp add: grows_weaken)
    qed
  qed
qed

lemma card_urls_le:
  "card (pageUrl ` set (pages sd)) + card (fst ` set (errors sd)) \<le> records sd"
proof -
  have "card (pageUrl ` set (pages sd)) \<le> length (pages sd)"
    using card_image_le[of "set (pages sd)" pageUrl] card_length[of "pages sd"] by simp
  moreover have "card (fst ` set (errors sd)) \<le> length (errors sd)"
    using card_image_le[of "set (errors sd)" fst] card_length[of "errors sd"] by simp
  ultimately show ?thesis by (simp add: records_def)
qed

lemma good_startCrawl: "good startCrawl"
  by (simp add: good_def startCrawl_def emptyScanData_def consistent_def)

lemma records_startCrawl: "records (scanData startCrawl) = 0"
  by (simp add: records_def startCrawl_def emptyScanData_def)

lemma traversal_bound:
  "good (fst (scanPage browser u 0 startCrawl))"
  "records (scanData (fst (scanPage browser u 0 startCrawl))) \<le> 37"
  using scan_grows(1)[OF good_startCrawl, of browser u 0] records_startCrawl
  by (simp_all add: grows_def visitBound_def)

lemma within_ceiling:
  assumes "consistent sd" "records sd \<le> 37"
  shows "pagesProcessed sd + pagesSkipped sd \<le> maxPages
    \<and> card (pageUrl ` set (pages sd)) + card (fst ` set (errors sd)) \<le> maxPages"
  using assms card_urls_le[of sd] by (simp add: consistent_def records_def maxPages_def)

lemma fst_finallyClose [simp]: "fst (finallyClose browserSet closeBrowser updates) = updates"
  by (simp add: finallyClose_def)

lemma scanWebsite_snapshots:
  assumes "sd \<in> set (snapshots (fst (scanWebsite browserSet launch browser closeBrowser now u)))"
  shows "consistent sd \<and> records sd \<le> 37"
proof (cases launch)
  case (Some e)
  then show ?thesis
    using assms by (simp add: scanWebsite_def emptyScanData_def consistent_def records_def)
next
  case None
  obtain s r where sp: "scanPage browser u 0 startCrawl = (s, r)"
    by (cases "scanPage browser u 0 startCrawl")
  have g: "good s" and b: "records (scanData s) \<le> 37"
    using traversal_bound[of browser u] sp by simp_all
  have old: "consistent x \<and> records x \<le> 37" if "x \<in> set (snapshots (sessionUpdates s))" for x
    using g b that by (fastforce simp: good_def)
  show ?thesis
  proof (cases r)
    case no_throw: None
    let ?fin = "(scanData s)\<lparr>completedAt := Some now,
                   totalPages := length (pages (scanData s)) + pagesSkipped (scanData s)\<rparr>"
    have "sd \<in> set (snapshots (sessionUpdates s)) \<or> sd = ?fin"
      using assms None sp no_throw by (auto simp: scanWebsite_def Let_def snapshots_append)
    moreover have "consistent ?fin \<and> records ?fin \<le> 37"
      using g b by (simp add: good_def consistent_def records_def)
    ultimately show ?thesis using old by blast
  next
    case (Some e)
    have "sd \<in> set (snapshots (sessionUpdates s)) \<or> sd = emptyScanData"
      using assms None sp Some by (auto simp: scanWebsite_def snapshots_append)
    moreover have "consistent emptyScanData \<and> records emptyScanData \<le> 37"
      by (simp add: emptyScanData_def consistent_def records_def)
    ultimately show ?thesis using old by blast
  qed
qed

lemma grows_recordPage_only:
  assumes "good s"
  shows "grows s (recordPage u pd s) 1"
proof -
  let ?s1 = "recordPage u pd s"
  have sd: "consistent (scanData ?s1)" "thisPagesProcessed ?s1 = length (pages (scanData ?s1))"
    "records (scanData ?s1) = records (scanData s) + 1"
    "sessionUpdates ?s1 = sessionUpdates s"
    using assms by (simp_all add: good_def recordPage_def Let_def consistent_def records_def)
  have "good ?s1"
    unfolding good_def using sd assms by (auto simp: good_def)
  then show ?thesis using sd(3) by (simp add: grows_def)
qed

lemma visitBound_links:
  "depth < 2 \<Longrightarrow> 1 + length (take 5 (ls::jsstring list)) * visitBound (depth + 1) + 1 \<le> visitBound depth"
proof -
  assume d: "depth < 2"
  have "length (take 5 ls) * visitBound (depth + 1) \<le> 5 * visitBound (depth + 1)"
    by (rule mult_le_mono1) simp
  then show ?thesis using visitBound_step[OF d] by linarith
qed

lemma during_grows:
  "during browser u depth s x \<Longrightarrow> good s \<Longrightarrow> grows s x (visitBound depth)"
  "duringLinks browser ls depth s x \<Longrightarrow> good s \<Longrightarrow> grows s x (length ls * visitBound depth)"
proof (induction rule: during_duringLinks.inducts)
  case (entered browser u depth s)
  then show ?case using grows_weaken[OF good_grows[of s], of "visitBound depth"] by simp
next
  case (marked u s depth browser)
  then show ?case
    using grows_weaken[OF grows_visited[of s "insert u (visitedUrls s)"], of "visitBound depth"]
    by simp
next
  case (caught u s depth browser e)
  let ?s1 = "s\<lparr>visitedUrls := insert u (visitedUrls s)\<rparr>"
  have g1: "grows s ?s1 0" using caught.prems by (rule grows_visited)
  have "grows s (catchError u e ?s1) (0 + 1)"
    using g1 grows_catchError[OF grows_good[OF g1]] by (rule grows_trans)
  then show ?case using visitBound_pos[of depth] by (simp add: grows_weaken)
next
  case (recorded u s depth browser pd)
  let ?s1 = "s\<lparr>visitedUrls := insert u (visitedUrls s)\<rparr>"
  have g1: "grows s ?s1 0" using recorded.prems by (rule grows_visited)
  have "grows s (recordPage u pd ?s1) (0 + 1)"
    using g1 grows_recordPage_only[OF grows_good[OF g1]] by (rule grows_trans)
  then show ?case using visitBound_pos[of depth] by (simp add: grows_weaken)
next
  case (flushed u s depth browser pd)
  let ?s1 = "s\<lparr>visitedUrls := insert u (visitedUrls s)\<rparr>"
  have g1: "grows s ?s1 0" using flushed.prems by (rule grows_visited)
  have "grows s (updateProgress (recordPage u pd ?s1)) (0 + 1)"
    using g1 grows_recordPage[OF grows_good[OF g1]] by (rule grows_trans)
  then show ?case using visitBound_pos[of depth] by (simp add: grows_weaken)
next
  case (in_links u s depth browser pd x)
  let ?s1 = "s\<lparr>visitedUrls := insert u (visitedUrls s)\<rparr>"
  let ?s2 = "updateProgress (recordPage u pd ?s1)"
  have g1: "grows s ?s1 0" using in_links.prems by (rule grows_visited)
  have g2: "grows s ?s2 (0 + 1)"
    using g1 grows_recordPage[OF grows_good[OF g1]] by (rule grows_trans)
  have "grows ?s2 x (length (take 5 (internalLinks pd)) * visitBound (depth + 1))"
    using in_links.IH grows_good[OF g2] by simp
  then have "grows s x (0 + 1 + length (take 5 (internalLinks pd)) * visitBound (depth + 1))"
    using g2 grows_trans by blast
  then show ?case
    using visitBound_links[of depth "internalLinks pd"] in_links.hyps(4) by (simp add: grows_weaken)
next
  case (caught_from_links u s depth browser pd s3 e)
  let ?s1 = "s\<lparr>visitedUrls := insert u (visitedUrls s)\<rparr>"
  let ?s2 = "updateProgress (recordPage u pd ?s1)"
  have g1: "grows s ?s1 0" using caught_from_links.prems by (rule grows_visited)
  have g2: "grows s ?s2 (0 + 1)"
    using g1 grows_recordPage[OF grows_good[OF g1]] by (rule grows_trans)
  have "grows ?s2 s3 (length (take 5 (internalLinks pd)) * visitBound (depth + 1))"
    using scan_grows(2)[OF grows_good[OF g2], of browser "take 5 (internalLinks pd)" "depth + 1"]
      caught_from_links.hyps(5) by simp
  then have g3: "grows s s3 (0 + 1 + length (take 5 (internalLinks pd)) * visitBound (depth + 1))"
    using g2 grows_trans by blast
  have "grows s (catchError u e s3)
      (0 + 1 + length (take 5 (internalLinks pd)) * visitBound (depth + 1) + 1)"
    using g3 grows_catchError[OF grows_good[OF g3]] by (rule grows_trans)
  then show ?case
    using visitBound_links[of depth "internalLinks pd"] caught_from_links.hyps(4)
    by (simp add: grows_weaken)
next
  case (loop_entered browser links depth s)
  then show ?case
    using grows_weaken[OF good_grows[of s], of "length links * visitBound depth"] by simp
next
  case (in_page s browser link depth x links)
  then show ?case by (simp add: grows_weaken)
next
  case (in_rest s browser link depth s' links x)
  have g1: "grows s s' (visitBound depth)"
    using scan_grows(1)[OF in_rest.prems, of browser link depth] in_rest.hyps(2) by simp
  have "grows s' x (length links * visitBound depth)"
    using in_rest.IH grows_good[OF g1] by simp
  then have "grows s x (visitBound depth + length links * visitBound depth)"
    using g1 grows_trans by blast
  then show ?case by simp
next
  case (in_rest_skipped s browser links depth x link)
  then show ?case by (simp add: grows_weaken)
qed

lemma during_end:
  "during browser u depth s (fst (scanPage browser u depth s))"
  "duringLinks browser ls depth s (fst (scanLinks browser ls depth s))"
proof (induction browser u depth s and browser ls depth s rule: scanPage_scanLinks.induct)
  case (1 browser u depth s)
  show ?case
  proof (cases "u \<in> visitedUrls s \<or> depth > 3 \<or> thisPagesProcessed s \<ge> maxPages")
    case True
    then show ?thesis by (simp add: scanPage_skip during_duringLinks.entered)
  next
    case guard: False
    show ?thesis
    proof (cases "newPage (browser u)")
      case (Some e)
      then show ?thesis
        using scanPage_newPage_fails[where browser=browser and u=u and depth=depth and s=s, OF guard Some]
          during_duringLinks.marked[where browser=browser and u=u and depth=depth and s=s, OF guard] by simp
    next
      case None
      show ?thesis
      proof (cases "render (browser u)")
        case (Inl e)
        then show ?thesis
          using scanPage_render_fails[where browser=browser and u=u and depth=depth and s=s, OF guard None Inl]
            during_duringLinks.caught[where browser=browser and u=u and depth=depth and s=s, OF guard None Inl] by simp
      next
        case (Inr pd)
        let ?s2 = "updateProgress (recordPage u pd (s\<lparr>visitedUrls := insert u (visitedUrls s)\<rparr>))"
        show ?thesis
        proof (cases "depth < 2 \<and> length (internalLinks pd) > 0")
          case False
          then show ?thesis
            using scanPage_leaf[where browser=browser and u=u and depth=depth and s=s, OF guard None Inr False]
              during_duringLinks.flushed[where browser=browser and u=u and depth=depth and s=s, OF guard None Inr] by simp
        next
          case True
          obtain s3 r where sl: "scanLinks browser (take 5 (internalLinks pd)) (depth + 1) ?s2 = (s3, r)"
            by (cases "scanLinks browser (take 5 (internalLinks pd)) (depth + 1) ?s2")
          have dl: "duringLinks browser (take 5 (internalLinks pd)) (depth + 1) ?s2 s3"
            using "1.IH"[OF guard refl None Inr refl True] sl by simp
          have "during browser u depth s (case r of None \<Rightarrow> s3 | Some e \<Rightarrow> catchError u e s3)"
          proof (cases r)
            case None
            then show ?thesis
              using during_duringLinks.in_links[where browser=browser and u=u and depth=depth and s=s, OF guard \<open>newPage (browser u) = None\<close> Inr True dl]
              by simp
          next
            case (Some e)
            then show ?thesis
              using during_duringLinks.caught_from_links[where browser=browser and u=u and depth=depth and s=s, OF guard \<open>newPage (browser u) = None\<close> Inr True]
                sl by simp
          qed
          then show ?thesis
            using scanPage_expand[where browser=browser and u=u and depth=depth and s=s, OF guard None Inr True sl]
            by simp
        qed
      qed
    qed
  qed
next
  case (2 browser depth s)
  then show ?case by (simp add: during_duringLinks.loop_entered)
next
  case (3 browser link links depth s)
  show ?case
  proof (cases "thisPagesProcessed s < maxPages")
    case False
    then show ?thesis
      using during_duringLinks.in_rest_skipped[where browser=browser and s=s, OF False "3.IH"(3)[OF False]] by simp
  next
    case True
    obtain s' r where sp: "scanPage browser link depth s = (s', r)"
      by (cases "scanPage browser link depth s")
    show ?thesis
    proof (cases r)
      case None
      have "duringLinks browser links depth s' (fst (scanLinks browser links depth s'))"
        using "3.IH"(2)[OF True sp[symmetric] None] .
      then show ?thesis
        using during_duringLinks.in_rest[where browser=browser and s=s and s'=s' and link=link, OF True] sp None True by simp
    next
      case (Some e)
      have "during browser link depth s s'" using "3.IH"(1)[OF True] sp by simp
      then show ?thesis
        using during_duringLinks.in_page[where browser=browser and s=s and link=link, OF True] sp Some True by simp
    qed
  qed
qed

text \<open>
  C3. In every crawl, whatever the browser does: every aggregate written to the session
  store (each progress write, the final one) and the aggregate in every state the traversal
  passes through, its last state included, satisfy \<open>pagesProcessed + pagesSkipped \<le> 50\<close>,
  and the number of distinct URLs in \<open>pages\<close> plus the number in \<open>errors\<close> is at most 50.
\<close>

theorem page_ceiling:
  "(\<forall>sd \<in> set (snapshots (fst (scanWebsite browserSet launch browser closeBrowser now u))).
       pagesProcessed sd + pagesSkipped sd \<le> maxPages
     \<and> card (pageUrl ` set (pages sd)) + card (fst ` set (errors sd)) \<le> maxPages)
   \<and> (\<forall>x. during browser u 0 startCrawl x \<longrightarrow>
         pagesProcessed (scanData x) + pagesSkipped (scanData x) \<le> maxPages
       \<and> card (pageUrl ` set (pages (scanData x))) + card (fst ` set (errors (scanData x)))
           \<le> maxPages)
   \<and> during browser u 0 startCrawl (fst (scanPage browser u 0 startCrawl))"
proof -
  have "pagesProcessed (scanData x) + pagesSkipped (scanData x) \<le> maxPages
      \<and> card (pageUrl ` set (pages (scanData x))) + card (fst ` set (errors (scanData x)))
          \<le> maxPages"
    if "during browser u 0 startCrawl x" for x
  proof -
    have "grows startCrawl x (visitBound 0)"
      using that good_startCrawl by (rule during_grows(1))
    then have "consistent (scanData x)" "records (scanData x) \<le> 37"
      using records_startCrawl by (simp_all add: grows_def good_def visitBound_def)
    then show ?thesis by (rule within_ceiling)
  qed
  then show ?thesis
    using scanWebsite_snapshots within_ceiling during_end(1)[of browser u 0 startCrawl] by blast
qed

lemmas crawl_eval = scanPage.simps startCrawl_def emptyScanData_def maxPages_def
  recordPage_def updateProgress_def catchError_def Let_def renders_def plain_page_def lit_def

lemma small_site_scan:
  "map pagesProcessed (snapshots (fst (scanWebsite False None small_site None 0 (lit ''A'')))) = [3, 3]
   \<and> map pagesSkipped (snapshots (fst (scanWebsite False None small_site None 0 (lit ''A'')))) = [1, 1]"
  by (simp add: scanWebsite_def small_site_def crawl_eval)

theorem page_ceiling_witness:
  "map pagesProcessed (snapshots (fst (scanWebsite False None small_site None 0 (lit ''A'')))) = [3, 3]
   \<and> map pagesSkipped (snapshots (fst (scanWebsite False None small_site None 0 (lit ''A'')))) = [1, 1]
   \<and> during small_site (lit ''A'') 0 startCrawl (fst (scanPage small_site (lit ''A'') 0 startCrawl))
   \<and> pagesProcessed (scanData (fst (scanPage small_site (lit ''A'') 0 startCrawl)))
       + pagesSkipped (scanData (fst (scanPage small_site (lit ''A'') 0 startCrawl))) \<le> maxPages"
  using page_ceiling[of False None small_site None 0 "lit ''A''"] small_site_scan by blast

lemma visited_simps [simp]:
  "visitedUrls (catchError u e s) = visitedUrls s"
  "visitedUrls (recordPage u pd s) = visitedUrls s"
  "visitedUrls (updateProgress s) = visitedUrls s"
  by (simp_all add: catchError_def recordPage_def updateProgress_def Let_def)

lemma reach_unfold:
  "depth < 2 \<Longrightarrow>
   reach browser depth u = insert u (\<Union>c \<in> set (linksOf browser u). reach browser (depth + 1) c)"
  by (cases "depth = 0") (auto simp: reach_def)

lemma scan_visits:
  "visitedUrls (fst (scanPage browser u depth s)) \<subseteq> visitedUrls s \<union> reach browser depth u"
  "visitedUrls (fst (scanLinks browser ls depth s))
     \<subseteq> visitedUrls s \<union> (\<Union>c \<in> set ls. reach browser depth c)"
proof (induction browser u depth s and browser ls depth s rule: scanPage_scanLinks.induct)
  case (1 browser u depth s)
  have self: "u \<in> reach browser depth u" by (simp add: reach_def)
  show ?case
  proof (cases "u \<in> visitedUrls s \<or> depth > 3 \<or> thisPagesProcessed s \<ge> maxPages")
    case True
    then show ?thesis by (simp add: scanPage_skip)
  next
    case guard: False
    show ?thesis
    proof (cases "newPage (browser u)")
      case (Some e)
      then show ?thesis
        using scanPage_newPage_fails[where browser=browser and u=u and depth=depth and s=s, OF guard Some]
          self by simp
    next
      case None
      show ?thesis
      proof (cases "render (browser u)")
        case (Inl e)
        then show ?thesis
          using scanPage_render_fails[where browser=browser and u=u and depth=depth and s=s, OF guard None Inl]
            self by simp
      next
        case (Inr pd)
        let ?s2 = "updateProgress (recordPage u pd (s\<lparr>visitedUrls := insert u (visitedUrls s)\<rparr>))"
        show ?thesis
        proof (cases "depth < 2 \<and> length (internalLinks pd) > 0")
          case False
          then show ?thesis
            using scanPage_leaf[where browser=browser and u=u and depth=depth and s=s, OF guard None Inr False]
              self by simp
        next
          case True
          obtain s3 r where sl: "scanLinks browser (take 5 (internalLinks pd)) (depth + 1) ?s2 = (s3, r)"
            by (cases "scanLinks browser (take 5 (internalLinks pd)) (depth + 1) ?s2")
          have "visitedUrls s3 \<subseteq> visitedUrls ?s2
                  \<union> (\<Union>c \<in> set (take 5 (internalLinks pd)). reach browser (depth + 1) c)"
            using "1.IH"[OF guard refl None Inr refl True] sl by simp
          moreover have "linksOf browser u = take 5 (internalLinks pd)"
            using Inr by (simp add: linksOf_def)
          ultimately have "visitedUrls s3 \<subseteq> visitedUrls s \<union> reach browser depth u"
            using reach_unfold[of depth browser u] True by auto
          moreover have "visitedUrls (case r of None \<Rightarrow> s3 | Some e \<Rightarrow> catchError u e s3) = visitedUrls s3"
            by (cases r) simp_all
          ultimately show ?thesis
            using scanPage_expand[where browser=browser and u=u and depth=depth and s=s, OF guard None Inr True sl]
            by simp
        qed
      qed
    qed
  qed
next
  case (2 browser depth s)
  then show ?case by simp
next
  case (3 browser link links depth s)
  show ?case
  proof (cases "thisPagesProcessed s < maxPages")
    case False
    then show ?thesis using "3.IH"(3) by auto
  next
    case True
    obtain s' r where sp: "scanPage browser link depth s = (s', r)"
      by (cases "scanPage browser link depth s")
    have v1: "visitedUrls s' \<subseteq> visitedUrls s \<union> reach browser depth link"
      using "3.IH"(1)[OF True] sp by simp
    show ?thesis
    proof (cases r)
      case None
      have "visitedUrls (fst (scanLinks browser links depth s'))
              \<subseteq> visitedUrls s' \<union> (\<Union>c \<in> set links. reach browser depth c)"
        using "3.IH"(2)[OF True sp[symmetric] None] .
      then show ?thesis using v1 True sp None by auto
    next
      case (Some e)
      then show ?thesis using v1 True sp by auto
    qed
  qed
qed

text \<open>
  C9. A call of \<open>scanPage\<close> visits nothing beyond what \<open>reach\<close> allows: below depth 2 the page
  and the pages reached from at most 5 of its internal links (\<open>linksOf\<close>), visited one level
  deeper; at depth 2 and beyond (written \<open>depth + 2\<close>) only the page itself, whose links
  are not expanded.
\<close>

theorem link_expansion_limits:
  "visitedUrls (fst (scanPage browser u depth s)) \<subseteq> visitedUrls s \<union> reach browser depth u
   \<and> length (linksOf browser u) \<le> 5
   \<and> reach browser (depth + 2) u = {u}
   \<and> visitedUrls (fst (scanPage browser u (depth + 2) s)) \<subseteq> insert u (visitedUrls s)"
proof -
  have "length (linksOf browser u) \<le> 5"
    by (cases "render (browser u)") (simp_all add: linksOf_def)
  moreover have r2: "reach browser (depth + 2) u = {u}" by (simp add: reach_def)
  moreover have "visitedUrls (fst (scanPage browser u (depth + 2) s)) \<subseteq> insert u (visitedUrls s)"
    using scan_visits(1)[of browser u "depth + 2" s] r2 by auto
  ultimately show ?thesis using scan_visits(1)[of browser u depth s] by blast
qed

theorem link_expansion_limits_witness:
  "visitedUrls (fst (scanPage small_site (lit ''A'') 0 startCrawl))
     \<subseteq> visitedUrls startCrawl \<union> reach small_site 0 (lit ''A'')
   \<and> length (linksOf small_site (lit ''A'')) \<le> 5
   \<and> reach small_site (0 + 2) (lit ''A'') = {lit ''A''}
   \<and> visitedUrls (fst (scanPage small_site (lit ''A'') (0 + 2) startCrawl))
       \<subseteq> insert (lit ''A'') (visitedUrls startCrawl)"
  by (rule link_expansion_limits)

text \<open>
  What holds of a failed rendering. When a page is visited (it is new, within the depth and
  page limits, and its page could be opened) and its rendering throws (navigation timeout,
  render error): the visit adds exactly one entry with the page's URL and the reason to
  \<open>errors\<close>, adds 1 to \<open>pagesSkipped\<close>, and leaves \<open>pages\<close> and everything else but the
  visited set unchanged; the only exception that can leave the call is that of closing the
  page, and when the page closes the call throws nothing and the loop over the links goes on
  with the next link.
\<close>

lemma page_failure_recorded:
  assumes "u \<notin> visitedUrls s" "depth \<le> 3" "thisPagesProcessed s < maxPages"
    and "newPage (browser u) = None" and "render (browser u) = Inl reason"
  shows "scanPage browser u depth s =
      (s\<lparr>visitedUrls := insert u (visitedUrls s),
          scanData := (scanData s)\<lparr>errors := errors (scanData s) @ [(u, reason)],
                                   pagesSkipped := pagesSkipped (scanData s) + 1\<rparr>\<rparr>,
       closePage (browser u))
    \<and> pages (scanData (fst (scanPage browser u depth s))) = pages (scanData s)
    \<and> (closePage (browser u) = None \<longrightarrow>
         snd (scanPage browser u depth s) = None
         \<and> scanLinks browser (u # links) depth s
             = scanLinks browser links depth (fst (scanPage browser u depth s)))"
proof -
  have guard: "\<not> (u \<in> visitedUrls s \<or> depth > 3 \<or> thisPagesProcessed s \<ge> maxPages)"
    using assms(1-3) by simp
  have eq: "scanPage browser u depth s =
      (catchError u reason (s\<lparr>visitedUrls := insert u (visitedUrls s)\<rparr>), closePage (browser u))"
    using scanPage_render_fails[where browser=browser and u=u and depth=depth and s=s, OF guard assms(4,5)]
    by simp
  show ?thesis using assms(3) by (simp add: eq catchError_def Let_def)
qed

lemma page_failure_recorded_at_small_site:
  "scanPage small_site (lit ''C'') 1 startCrawl =
      (startCrawl\<lparr>visitedUrls := insert (lit ''C'') (visitedUrls startCrawl),
          scanData := (scanData startCrawl)\<lparr>errors := errors (scanData startCrawl)
                                              @ [(lit ''C'', lit ''Navigation timeout'')],
                                   pagesSkipped := pagesSkipped (scanData startCrawl) + 1\<rparr>\<rparr>,
       None)
   \<and> pages (scanData (fst (scanPage small_site (lit ''C'') 1 startCrawl))) = pages (scanData startCrawl)
   \<and> snd (scanPage small_site (lit ''C'') 1 startCrawl) = None
   \<and> scanLinks small_site [lit ''C'', lit ''D''] 1 startCrawl
        = scanLinks small_site [lit ''D''] 1 (fst (scanPage small_site (lit ''C'') 1 startCrawl))"
proof -
  have h: "lit ''C'' \<notin> visitedUrls startCrawl" "(1::nat) \<le> 3"
    "thisPagesProcessed startCrawl < maxPages"
    "newPage (small_site (lit ''C'')) = None"
    "render (small_site (lit ''C'')) = Inl (lit ''Navigation timeout'')"
    by (simp_all add: startCrawl_def maxPages_def small_site_def lit_def)
  have c: "closePage (small_site (lit ''C'')) = None"
    by (simp add: small_site_def lit_def)
  show ?thesis
    using page_failure_recorded[where browser=small_site and u="lit ''C''" and depth=1
        and s=startCrawl and links="[lit ''D'']", OF h] c
    by simp
qed

text \<open>
  The visited set keeps the URLs of \<open>pages\<close> apart: no URL has two entries in \<open>pages\<close>.
\<close>

lemma once_catchError: "pages_visited_once s \<Longrightarrow> pages_visited_once (catchError u e s)"
  by (simp add: pages_visited_once_def catchError_def Let_def)

lemma once_recordPage:
  assumes "pages_visited_once s" "u \<notin> visitedUrls s"
  shows "pages_visited_once
           (updateProgress (recordPage u pd (s\<lparr>visitedUrls := insert u (visitedUrls s)\<rparr>)))"
  using assms
  by (auto simp: pages_visited_once_def updateProgress_def recordPage_def Let_def)

lemma once_visited:
  "pages_visited_once s \<Longrightarrow> pages_visited_once (s\<lparr>visitedUrls := insert u (visitedUrls s)\<rparr>)"
  by (auto simp: pages_visited_once_def)

lemma scan_pages_once:
  "pages_visited_once s \<Longrightarrow> pages_visited_once (fst (scanPage browser u depth s))"
  "pages_visited_once s \<Longrightarrow> pages_visited_once (fst (scanLinks browser ls depth s))"
proof (induction browser u depth s and browser ls depth s rule: scanPage_scanLinks.induct)
  case (1 browser u depth s)
  show ?case
  proof (cases "u \<in> visitedUrls s \<or> depth > 3 \<or> thisPagesProcessed s \<ge> maxPages")
    case True
    then show ?thesis using "1.prems" by (simp add: scanPage_skip)
  next
    case guard: False
    then have fresh: "u \<notin> visitedUrls s" by simp
    show ?thesis
    proof (cases "newPage (browser u)")
      case (Some e)
      then show ?thesis
        using scanPage_newPage_fails[where browser=browser and u=u and depth=depth and s=s, OF guard Some]
          once_visited[OF "1.prems"] by simp
    next
      case None
      show ?thesis
      proof (cases "render (browser u)")
        case (Inl e)
        then show ?thesis
          using scanPage_render_fails[where browser=browser and u=u and depth=depth and s=s, OF guard None Inl]
            once_catchError[OF once_visited[OF "1.prems"]] by simp
      next
        case (Inr pd)
        let ?s2 = "updateProgress (recordPage u pd (s\<lparr>visitedUrls := insert u (visitedUrls s)\<rparr>))"
        have o2: "pages_visited_once ?s2" using "1.prems" fresh by (rule once_recordPage)
        show ?thesis
        proof (cases "depth < 2 \<and> length (internalLinks pd) > 0")
          case False
          then show ?thesis
            using scanPage_leaf[where browser=browser and u=u and depth=depth and s=s, OF guard None Inr False]
              o2 by simp
        next
          case True
          obtain s3 r where sl: "scanLinks browser (take 5 (internalLinks pd)) (depth + 1) ?s2 = (s3, r)"
            by (cases "scanLinks browser (take 5 (internalLinks pd)) (depth + 1) ?s2")
          have o3: "pages_visited_once s3"
            using "1.IH"[OF guard refl None Inr refl True o2] sl by simp
          have "pages_visited_once (case r of None \<Rightarrow> s3 | Some e \<Rightarrow> catchError u e s3)"
            using o3 once_catchError by (cases r) simp_all
          then show ?thesis
            using scanPage_expand[where browser=browser and u=u and depth=depth and s=s, OF guard None Inr True sl]
            by simp
        qed
      qed
    qed
  qed
next
  case (2 browser depth s)
  then show ?case by simp
next
  case (3 browser link links depth s)
  show ?case
  proof (cases "thisPagesProcessed s < maxPages")
    case False
    then show ?thesis using "3.IH"(3) "3.prems" by simp
  next
    case True
    obtain s' r where sp: "scanPage browser link depth s = (s', r)"
      by (cases "scanPage browser link depth s")
    have o1: "pages_visited_once s'"
      using "3.IH"(1)[OF True "3.prems"] sp by simp
    show ?thesis
    proof (cases r)
      case None
      then show ?thesis using "3.IH"(2)[OF True sp[symmetric] None o1] True sp by simp
    next
      case (Some e)
      then show ?thesis using o1 True sp by simp
    qed
  qed
qed

lemma pages_urls_distinct:
  "distinct (map pageUrl (pages (scanData (fst (scanPage browser u 0 startCrawl)))))"
proof -
  have "pages_visited_once startCrawl"
    by (simp add: pages_visited_once_def startCrawl_def emptyScanData_def)
  then have "pages_visited_once (fst (scanPage browser u 0 startCrawl))"
    by (rule scan_pages_once(1))
  then show ?thesis by (simp add: pages_visited_once_def)
qed

text \<open>
  While pages open and close, no exception leaves a call of \<open>scanPage\<close>, and no URL has two
  records in \<open>pages\<close> and \<open>errors\<close> together.
\<close>

lemma all_once_catchError:
  assumes "visited_once s" "u \<notin> visitedUrls s"
  shows "visited_once (catchError u e (s\<lparr>visitedUrls := insert u (visitedUrls s)\<rparr>))"
  using assms by (auto simp: visited_once_def record_urls_def catchError_def Let_def)

lemma all_once_recordPage:
  assumes "visited_once s" "u \<notin> visitedUrls s"
  shows "visited_once
           (updateProgress (recordPage u pd (s\<lparr>visitedUrls := insert u (visitedUrls s)\<rparr>)))"
  using assms
  by (auto simp: visited_once_def record_urls_def updateProgress_def recordPage_def Let_def)

lemma scan_all_once:
  "reliable browser \<Longrightarrow> visited_once s \<Longrightarrow>
     visited_once (fst (scanPage browser u depth s)) \<and> snd (scanPage browser u depth s) = None"
  "reliable browser \<Longrightarrow> visited_once s \<Longrightarrow>
     visited_once (fst (scanLinks browser ls depth s)) \<and> snd (scanLinks browser ls depth s) = None"
proof (induction browser u depth s and browser ls depth s rule: scanPage_scanLinks.induct)
  case (1 browser u depth s)
  have np: "newPage (browser u) = None" and cl: "closePage (browser u) = None"
    using "1.prems"(1) by (simp_all add: reliable_def)
  show ?case
  proof (cases "u \<in> visitedUrls s \<or> depth > 3 \<or> thisPagesProcessed s \<ge> maxPages")
    case True
    then show ?thesis using "1.prems" by (simp add: scanPage_skip)
  next
    case guard: False
    then have fresh: "u \<notin> visitedUrls s" by simp
    show ?thesis
    proof (cases "render (browser u)")
      case (Inl e)
      then show ?thesis
        using scanPage_render_fails[where browser=browser and u=u and depth=depth and s=s, OF guard np Inl]
          all_once_catchError[OF "1.prems"(2) fresh] cl by simp
    next
      case (Inr pd)
      let ?s2 = "updateProgress (recordPage u pd (s\<lparr>visitedUrls := insert u (visitedUrls s)\<rparr>))"
      have o2: "visited_once ?s2" using "1.prems"(2) fresh by (rule all_once_recordPage)
      show ?thesis
      proof (cases "depth < 2 \<and> length (internalLinks pd) > 0")
        case False
        then show ?thesis
          using scanPage_leaf[where browser=browser and u=u and depth=depth and s=s, OF guard np Inr False]
            o2 cl by simp
      next
        case True
        obtain s3 r where sl: "scanLinks browser (take 5 (internalLinks pd)) (depth + 1) ?s2 = (s3, r)"
          by (cases "scanLinks browser (take 5 (internalLinks pd)) (depth + 1) ?s2")
        have "visited_once s3 \<and> r = None"
          using "1.IH"[OF guard refl np Inr refl True "1.prems"(1) o2] sl by simp
        then show ?thesis
          using scanPage_expand[where browser=browser and u=u and depth=depth and s=s, OF guard np Inr True sl]
            cl by simp
      qed
    qed
  qed
next
  case (2 browser depth s)
  then show ?case by simp
next
  case (3 browser link links depth s)
  show ?case
  proof (cases "thisPagesProcessed s < maxPages")
    case False
    then show ?thesis using "3.IH"(3) "3.prems" by simp
  next
    case True
    obtain s' r where sp: "scanPage browser link depth s = (s', r)"
      by (cases "scanPage browser link depth s")
    have o1: "visited_once s'" and r: "r = None"
      using "3.IH"(1)[OF True "3.prems"] sp by simp_all
    show ?thesis
      using "3.IH"(2)[OF True sp[symmetric] r "3.prems"(1) o1] True sp r by simp
  qed
qed

lemma records_distinct_if_reliable:
  assumes "reliable browser"
  shows "distinct (record_urls (scanData (fst (scanPage browser u 0 startCrawl))))"
proof -
  have "visited_once startCrawl"
    by (simp add: visited_once_def record_urls_def startCrawl_def emptyScanData_def)
  then have "visited_once (fst (scanPage browser u 0 startCrawl))"
    using scan_all_once(1)[OF assms] by simp
  then show ?thesis by (simp add: visited_once_def)
qed

text \<open>
  C5, at an input where the code departs from it. Page A renders and links to C and D;
  rendering C times out, and closing C's page fails too. The timeout is recorded against C,
  but the exception of \<open>page.close()\<close> leaves the call for C from its \<open>finally\<close> block: the
  loop over A's links is abandoned, D is never visited, and the \<open>catch\<close> block of the call
  for A records a second error, against A. With C as the seed, the same exception ends the
  crawl: the session is written as failed, with an empty aggregate.
\<close>

theorem close_failure_aborts_traversal:
  "render (close_fails_after_timeout (lit ''C'')) = Inl (lit ''Navigation timeout'')
   \<and> scanPage close_fails_after_timeout (lit ''C'') 0 startCrawl
       = (catchError (lit ''C'') (lit ''Navigation timeout'')
            (startCrawl\<lparr>visitedUrls := {lit ''C''}\<rparr>),
          Some (lit ''Target closed''))
   \<and> map pageUrl (pages (scanData (fst (scanPage close_fails_after_timeout (lit ''A'') 0 startCrawl))))
       = [lit ''A'']
   \<and> errors (scanData (fst (scanPage close_fails_after_timeout (lit ''A'') 0 startCrawl)))
       = [(lit ''C'', lit ''Navigation timeout''), (lit ''A'', lit ''Target closed'')]
   \<and> pagesSkipped (scanData (fst (scanPage close_fails_after_timeout (lit ''A'') 0 startCrawl))) = 2
   \<and> lit ''D'' \<notin> visitedUrls (fst (scanPage close_fails_after_timeout (lit ''A'') 0 startCrawl))
   \<and> fst (scanWebsite False None close_fails_after_timeout None 0 (lit ''C''))
       = [StatusScanning, ScanFailed (lit ''Target closed'') emptyScanData]"
  by (simp add: scanWebsite_def close_fails_after_timeout_def crawl_eval)

text \<open>
  C2, at an input where the code departs from it. Page A renders and links to B; opening a
  page for B fails. The exception of the recursive call is caught by the \<open>catch\<close> block of
  the call for A, after A was pushed to \<open>pages\<close>: A has an entry in \<open>pages\<close> and an entry in
  \<open>errors\<close>, it counts as processed and as skipped, and \<open>totalPages\<close> is 2 for a crawl that
  rendered one page.
\<close>

theorem child_failure_blames_parent:
  "map pageUrl (pages (scanData (fst (scanPage child_page_fails (lit ''A'') 0 startCrawl)))) = [lit ''A'']
   \<and> errors (scanData (fst (scanPage child_page_fails (lit ''A'') 0 startCrawl)))
       = [(lit ''A'', lit ''Target closed'')]
   \<and> pagesProcessed (scanData (fst (scanPage child_page_fails (lit ''A'') 0 startCrawl))) = 1
   \<and> pagesSkipped (scanData (fst (scanPage child_page_fails (lit ''A'') 0 startCrawl))) = 1
   \<and> snd (scanPage child_page_fails (lit ''A'') 0 startCrawl) = None
   \<and> map totalPages (snapshots (fst (scanWebsite False None child_page_fails None 0 (lit ''A'')))) = [2]"
  by (simp add: scanWebsite_def child_page_fails_def crawl_eval)

end
